theory Spec2Isabelle
  imports Complex_Main
begin

chapter \<open>The model\<close>

section \<open>Brute-force window-size search (\<^verbatim>\<open>optimizeWindowSize\<close>)\<close>

text \<open>
  The three variants of the tool carry the same \<^verbatim>\<open>optimizeWindowSize\<close>. Its arguments come
  from \<^verbatim>\<open>parseInt\<close>, so they are modelled as integers; \<^verbatim>\<open>Math.floor((w * p) / 100)\<close> on
  integers is the floor division \<open>div\<close> of \<open>int\<close>. The coverage fraction
  \<^verbatim>\<open>coverage / totalImages\<close> is a rational number.

  The first three definitions are the constants \<^verbatim>\<open>stepSize\<close>, \<^verbatim>\<open>lastWindowEnd\<close> and
  \<^verbatim>\<open>coverage\<close> that the loop body computes for one window size. The body acts on the pair
  \<open>(bestWindowSize, bestCoverage)\<close>, and the \<^verbatim>\<open>for\<close> loop runs it for the sizes from 1 to
  \<^verbatim>\<open>totalImages\<close>.
\<close>

definition stepSize_of :: "int \<Rightarrow> int \<Rightarrow> int" where
  "stepSize_of windowSize overlapPercent =
     (let overlapSize = (windowSize * overlapPercent) div 100
      in windowSize - overlapSize)"

definition lastWindowEnd_of :: "int \<Rightarrow> int \<Rightarrow> int \<Rightarrow> int" where
  "lastWindowEnd_of numWindows overlapPercent windowSize =
     (let stepSize = stepSize_of windowSize overlapPercent;
          lastWindowStart = (numWindows - 1) * stepSize
      in lastWindowStart + windowSize - 1)"

definition coverage_of :: "int \<Rightarrow> int \<Rightarrow> int \<Rightarrow> int \<Rightarrow> int" where
  "coverage_of totalImages numWindows overlapPercent windowSize =
     min (lastWindowEnd_of numWindows overlapPercent windowSize + 1) totalImages"

definition optimizeWindowSize_body ::
  "int \<Rightarrow> int \<Rightarrow> int \<Rightarrow> int \<Rightarrow> int \<times> rat \<Rightarrow> int \<times> rat" where
  "optimizeWindowSize_body totalImages numWindows overlapPercent windowSize best =
     (let stepSize = stepSize_of windowSize overlapPercent in
      if stepSize \<le> 0 then best
      else
        let lastWindowEnd = lastWindowEnd_of numWindows overlapPercent windowSize;
            coverage = coverage_of totalImages numWindows overlapPercent windowSize;
            coveragePercent = rat_of_int coverage / rat_of_int totalImages
        in if coveragePercent > snd best \<and> lastWindowEnd < totalImages
           then (windowSize, coveragePercent)
           else best)"

function optimizeWindowSize_loop ::
  "int \<Rightarrow> int \<Rightarrow> int \<Rightarrow> int \<Rightarrow> int \<times> rat \<Rightarrow> int" where
  "optimizeWindowSize_loop totalImages numWindows overlapPercent windowSize best =
     (if windowSize \<le> totalImages
      then optimizeWindowSize_loop totalImages numWindows overlapPercent (windowSize + 1)
             (optimizeWindowSize_body totalImages numWindows overlapPercent windowSize best)
      else fst best)"
  by pat_completeness auto
termination
  by (relation "measure (\<lambda>(totalImages, numWindows, overlapPercent, windowSize, best).
        nat (totalImages + 1 - windowSize))") auto

declare optimizeWindowSize_loop.simps [simp del]

definition optimizeWindowSize :: "int \<Rightarrow> int \<Rightarrow> int \<Rightarrow> int" where
  "optimizeWindowSize totalImages numWindows overlapPercent =
     optimizeWindowSize_loop totalImages numWindows overlapPercent 1 (1, 0)"

section \<open>Index-based window layout (\<^verbatim>\<open>calculateWindows\<close> of \<^verbatim>\<open>index.js\<close>)\<close>

text \<open>
  The window objects \<^verbatim>\<open>{start, end, center, centercm}\<close> of the index-based variant, with
  prefixed field names (\<open>end\<close> is a keyword). The indices are 0-based image indices;
  \<^verbatim>\<open>center\<close> may be a half-integer. The inputs are read by \<^verbatim>\<open>parseInt\<close> and, for
  \<^verbatim>\<open>sliceInterval\<close>, \<^verbatim>\<open>parseFloat\<close>.
\<close>

record win =
  win_start :: int
  win_end :: int
  win_center :: rat
  win_centercm :: rat

text \<open>
  The \<^verbatim>\<open>for (let i = 0; i < numWindows; i++)\<close> loop with its \<^verbatim>\<open>break\<close>; \<open>windows\<close> is the
  array built so far (\<^verbatim>\<open>centerPoints\<close> receives the \<^verbatim>\<open>centercm\<close> of each pushed window).
\<close>

function calculateWindows_loop ::
  "int \<Rightarrow> int \<Rightarrow> int \<Rightarrow> int \<Rightarrow> rat \<Rightarrow> int \<Rightarrow> win list \<Rightarrow> win list" where
  "calculateWindows_loop totalImages numWindows windowSize stepSize sliceInterval i windows =
     (if i < numWindows then
        let start = i * stepSize;
            end' = min (start + windowSize - 1) (totalImages - 1)
        in if start \<ge> totalImages then windows
           else
             let centerIndex =
                   rat_of_int start + (rat_of_int (min windowSize (totalImages - start)) - 1) / 2;
                 centercm = centerIndex * sliceInterval
             in calculateWindows_loop totalImages numWindows windowSize stepSize sliceInterval
                  (i + 1)
                  (windows @ [\<lparr>win_start = start, win_end = end', win_center = centerIndex,
                               win_centercm = centercm\<rparr>])
      else windows)"
  by pat_completeness auto
termination
  by (relation "measure (\<lambda>(totalImages, numWindows, windowSize, stepSize, sliceInterval, i, windows).
        nat (numWindows - i))") auto

declare calculateWindows_loop.simps [simp del]

text \<open>The object \<^verbatim>\<open>calculateWindows\<close> returns, its fields prefixed with \<open>lay_\<close>.\<close>

record layout =
  lay_windows :: "win list"
  lay_centerPoints :: "rat list"
  lay_stepSize :: int
  lay_totalImages :: int
  lay_windowSize :: int
  lay_sliceInterval :: rat
  lay_actualNumWindows :: nat

definition calculateWindows :: "int \<Rightarrow> int \<Rightarrow> int \<Rightarrow> rat \<Rightarrow> layout" where
  "calculateWindows totalImages numWindows overlapPercent sliceInterval =
     (let windowSize = optimizeWindowSize totalImages numWindows overlapPercent;
          overlapSize = (windowSize * overlapPercent) div 100;
          stepSize = windowSize - overlapSize;
          windows = calculateWindows_loop totalImages numWindows windowSize stepSize
                      sliceInterval 0 []
      in \<lparr>lay_windows = windows, lay_centerPoints = map win_centercm windows,
          lay_stepSize = stepSize, lay_totalImages = totalImages, lay_windowSize = windowSize,
          lay_sliceInterval = sliceInterval, lay_actualNumWindows = length windows\<rparr>)"

section \<open>Position table (\<^verbatim>\<open>getSlicePositions\<close>)\<close>

text \<open>
  JavaScript numbers are modelled by exact rationals; the rounding of the operations is
  added in the last section of this chapter. A position
  object \<^verbatim>\<open>{rel_center_mm, thickness_mm}\<close> is a record; the field \<^verbatim>\<open>thickness_mm\<close> is named
  \<open>pos_thickness_mm\<close> because the source also has a function \<^verbatim>\<open>thickness_mm\<close>.

  The table \<^verbatim>\<open>positions\<close> is an object with integer keys. \<^verbatim>\<open>Object.entries\<close> and
  \<^verbatim>\<open>Object.keys\<close> enumerate integer keys in ascending order, so the table is the list of its
  entries in that order. The source fills it from key \<^verbatim>\<open>totalImages\<close> down to 1, each new key
  smaller than the ones present: each assignment puts its entry at the front.

  For \<^verbatim>\<open>totalImages = 1\<close> the source divides by zero and stores a non-finite center; exact
  rationals do not have one, so the statements about the contents of the table leave that
  input out.
\<close>

record position =
  rel_center_mm :: rat
  pos_thickness_mm :: rat

type_synonym positions = "(int \<times> position) list"

function getSlicePositions_loop :: "int \<Rightarrow> rat \<Rightarrow> rat \<Rightarrow> int \<Rightarrow> positions \<Rightarrow> positions" where
  "getSlicePositions_loop totalImages spaceBetweenSlices sliceThickness i positions =
     (if i > 0
      then getSlicePositions_loop totalImages spaceBetweenSlices sliceThickness (i - 1)
             ((i, \<lparr>rel_center_mm = rat_of_int (totalImages - i) * spaceBetweenSlices,
                   pos_thickness_mm = sliceThickness\<rparr>) # positions)
      else positions)"
  by pat_completeness auto
termination
  by (relation "measure (\<lambda>(totalImages, spaceBetweenSlices, sliceThickness, i, positions). nat i)")
    auto

declare getSlicePositions_loop.simps [simp del]

definition getSlicePositions :: "int \<Rightarrow> rat \<Rightarrow> rat \<Rightarrow> positions" where
  "getSlicePositions totalImages totalLength sliceThickness =
     (let spaceBetweenSlices = totalLength / rat_of_int (totalImages - 1)
      in getSlicePositions_loop totalImages spaceBetweenSlices sliceThickness totalImages [])"

section \<open>Position-aware greedy matcher (\<^verbatim>\<open>get_windows\<close>)\<close>

text \<open>
  The only failure of this code is the \<^verbatim>\<open>TypeError\<close> JavaScript raises when a property of
  \<^verbatim>\<open>undefined\<close> is read or when \<^verbatim>\<open>reduce\<close> runs on an empty array without initial value.
\<close>

datatype js_error = TypeError

text \<open>
  A relative error divides by the target, which the simplex search may set to zero. The
  quotient is then \<^verbatim>\<open>Infinity\<close> or \<^verbatim>\<open>NaN\<close>, so error values are finite rationals or one of the
  non-finite numbers, compared and combined as JavaScript does.
\<close>

datatype jsnum = Fin rat | PInf | NInf | NaN

fun js_less :: "jsnum \<Rightarrow> jsnum \<Rightarrow> bool" where
  "js_less (Fin a) (Fin b) = (a < b)"
| "js_less (Fin a) PInf = True"
| "js_less NInf (Fin b) = True"
| "js_less NInf PInf = True"
| "js_less _ _ = False"

fun js_times :: "jsnum \<Rightarrow> jsnum \<Rightarrow> jsnum" where
  "js_times (Fin a) (Fin b) = Fin (a * b)"
| "js_times NaN _ = NaN"
| "js_times _ NaN = NaN"
| "js_times (Fin a) PInf = (if a = 0 then NaN else if 0 < a then PInf else NInf)"
| "js_times (Fin a) NInf = (if a = 0 then NaN else if 0 < a then NInf else PInf)"
| "js_times PInf (Fin b) = (if b = 0 then NaN else if 0 < b then PInf else NInf)"
| "js_times NInf (Fin b) = (if b = 0 then NaN else if 0 < b then NInf else PInf)"
| "js_times PInf PInf = PInf"
| "js_times NInf NInf = PInf"
| "js_times PInf NInf = NInf"
| "js_times NInf PInf = NInf"

fun js_plus :: "jsnum \<Rightarrow> jsnum \<Rightarrow> jsnum" where
  "js_plus (Fin a) (Fin b) = Fin (a + b)"
| "js_plus NaN _ = NaN"
| "js_plus _ NaN = NaN"
| "js_plus PInf NInf = NaN"
| "js_plus NInf PInf = NaN"
| "js_plus PInf _ = PInf"
| "js_plus _ PInf = PInf"
| "js_plus NInf _ = NInf"
| "js_plus _ NInf = NInf"

text \<open>\<^verbatim>\<open>(Math.abs(c - target) / target) * 100\<close>, for finite \<open>c\<close> and \<open>target\<close>.\<close>

definition rel_error :: "rat \<Rightarrow> rat \<Rightarrow> jsnum" where
  "rel_error c target =
     (if target = 0 then (if c - target = 0 then NaN else PInf)
      else Fin ((\<bar>c - target\<bar> / target) * 100))"

text \<open>The optional second argument (\<^verbatim>\<open>end = null\<close>) is an \<open>option\<close>.\<close>

definition distance_mm :: "position \<Rightarrow> position option \<Rightarrow> rat" where
  "distance_mm start end' =
     (case end' of None \<Rightarrow> 0
      | Some e \<Rightarrow>
          let start_pos = rel_center_mm start;
              end_pos = rel_center_mm e
          in \<bar>end_pos - start_pos\<bar>)"

definition thickness_mm :: "position \<Rightarrow> position option \<Rightarrow> rat" where
  "thickness_mm start end' =
     (case end' of None \<Rightarrow> pos_thickness_mm start
      | Some e \<Rightarrow> (pos_thickness_mm start + pos_thickness_mm e) / 2)"

definition coverage_mm :: "position \<Rightarrow> position option \<Rightarrow> rat" where
  "coverage_mm start end' =
     (case end' of None \<Rightarrow> pos_thickness_mm start
      | Some e \<Rightarrow>
          let distance = distance_mm start end';
              thickness = thickness_mm start end'
          in distance + thickness)"

definition get_future_positions :: "positions \<Rightarrow> int \<Rightarrow> positions" where
  "get_future_positions positions start_index =
     filter (\<lambda>(key, pos). key > start_index) positions"

text \<open>
  \<^verbatim>\<open>Object.entries(errors).reduce((min, curr) => curr[1] < min[1] ? curr : min)\<close>: without
  an initial value, \<^verbatim>\<open>reduce\<close> starts from the first entry and raises \<^verbatim>\<open>TypeError\<close> on an
  empty array. The entries carry, beside the key and its error, the measured length stored
  under the same key (\<^verbatim>\<open>coverages_mm[key]\<close> or \<^verbatim>\<open>distances_mm[key]\<close>), which the source looks up
  again by the winning key.
\<close>

definition reduce_min :: "(int \<times> jsnum \<times> rat) list \<Rightarrow> js_error + (int \<times> jsnum \<times> rat)" where
  "reduce_min errors =
     (case errors of
        [] \<Rightarrow> Inl TypeError
      | e # es \<Rightarrow>
          Inr (foldl (\<lambda>min curr. if js_less (fst (snd curr)) (fst (snd min)) then curr else min)
                 e es))"

text \<open>
  \<^verbatim>\<open>get_asdf\<close> (span match) and \<^verbatim>\<open>get_asdf1\<close> (step match) return
  \<^verbatim>\<open>[min_error_key, min_error, min_error_length]\<close>. With an undefined
  \<^verbatim>\<open>positions[start_index]\<close> the first measurement raises \<^verbatim>\<open>TypeError\<close>, and with no future
  position the \<^verbatim>\<open>reduce\<close> does.
\<close>

definition get_asdf :: "positions \<Rightarrow> int \<Rightarrow> rat \<Rightarrow> js_error + (int \<times> jsnum \<times> rat)" where
  "get_asdf positions start_index target_mm =
     (let future_positions_mm = get_future_positions positions start_index
      in case map_of positions start_index of
           None \<Rightarrow> Inl TypeError
         | Some start \<Rightarrow>
             let coverages_mm =
                   map (\<lambda>(key, pos). (key, coverage_mm start (Some pos))) future_positions_mm;
                 errors = map (\<lambda>(key, c). (key, rel_error c target_mm, c)) coverages_mm
             in reduce_min errors)"

definition get_asdf1 :: "positions \<Rightarrow> int \<Rightarrow> rat \<Rightarrow> js_error + (int \<times> jsnum \<times> rat)" where
  "get_asdf1 positions start_index target_mm =
     (let future_positions_mm = get_future_positions positions start_index
      in case map_of positions start_index of
           None \<Rightarrow> Inl TypeError
         | Some start \<Rightarrow>
             let distances_mm =
                   map (\<lambda>(key, pos). (key, distance_mm start (Some pos))) future_positions_mm;
                 errors = map (\<lambda>(key, c). (key, rel_error c target_mm, c)) distances_mm
             in reduce_min errors)"

text \<open>
  The objects pushed on \<^verbatim>\<open>windows\<close>. Fields \<^verbatim>\<open>error\<close>, \<^verbatim>\<open>coverage_mm\<close> and \<^verbatim>\<open>distance_mm\<close>
  are prefixed, the step's fields too. \<^verbatim>\<open>step.mm\<close> reads the property \<^verbatim>\<open>rel_start_mm\<close>, which
  no position has: it is always \<^verbatim>\<open>undefined\<close>, here \<open>None\<close>.
\<close>

record window_rec =
  start_img :: int
  start_idx :: int
  start_mm :: rat
  end_img :: int
  end_idx :: int
  end_mm :: rat
  win_error :: jsnum
  win_coverage_mm :: rat
  coverage_imgs :: int
  center_idx :: int
  center_mm :: rat

record step_rec =
  step_img :: int
  step_idx :: int
  step_mm :: "rat option"
  step_error :: jsnum
  step_distance_mm :: rat
  step_distance_imgs :: int

record entry =
  window :: window_rec
  step :: step_rec

text \<open>
  The object literal that \<^verbatim>\<open>get_windows\<close> writes twice, once for the first window and
  once in the loop. Reading a field of an undefined position raises \<^verbatim>\<open>TypeError\<close>.
\<close>

definition make_entry ::
  "positions \<Rightarrow> int \<Rightarrow> int \<Rightarrow> jsnum \<Rightarrow> rat \<Rightarrow> int \<Rightarrow> jsnum \<Rightarrow> rat \<Rightarrow> js_error + entry" where
  "make_entry slicePositions window_start_img window_end_img e1 c next_window_start_img e2 d =
     (let center_idx' = (window_start_img + window_end_img) div 2
      in case (map_of slicePositions window_start_img, map_of slicePositions window_end_img,
               map_of slicePositions center_idx', map_of slicePositions next_window_start_img) of
           (Some ps, Some pe, Some pc, Some pn) \<Rightarrow>
             Inr \<lparr>window =
                    \<lparr>start_img = window_start_img,
                     start_idx = window_start_img - 1,
                     start_mm = rel_center_mm ps,
                     end_img = window_end_img,
                     end_idx = window_end_img - 1,
                     end_mm = rel_center_mm pe,
                     win_error = e1,
                     win_coverage_mm = c,
                     coverage_imgs = window_end_img - window_start_img + 1,
                     center_idx = center_idx',
                     center_mm = rel_center_mm pc\<rparr>,
                  step =
                    \<lparr>step_img = next_window_start_img,
                     step_idx = next_window_start_img - 1,
                     step_mm = None,
                     step_error = e2,
                     step_distance_mm = d,
                     step_distance_imgs = next_window_start_img - window_start_img + 1\<rparr>\<rparr>
         | _ \<Rightarrow> Inl TypeError)"

text \<open>
  One pass of the \<^verbatim>\<open>while (true)\<close> body. The loop assigns
  \<^verbatim>\<open>[next_window_start_img, e2] = get_asdf1(...)\<close>: the third component is dropped, so \<open>d\<close>
  keeps the value the first step match gave it.
\<close>

datatype iteration = Threw js_error | Broke "entry list" | Continue int "entry list"

definition get_windows_body ::
  "positions \<Rightarrow> rat \<times> rat \<Rightarrow> rat \<Rightarrow> int \<Rightarrow> entry list \<Rightarrow> iteration" where
  "get_windows_body slicePositions x d next_window_start_img windows =
     (let window_start_img = next_window_start_img
      in case get_asdf slicePositions window_start_img (fst x) of
           Inl err \<Rightarrow> Threw err
         | Inr (window_end_img, e1, c) \<Rightarrow>
             if js_less (Fin 1) e1 then Broke windows
             else
               (case get_asdf1 slicePositions window_start_img (snd x) of
                  Inl err \<Rightarrow> Threw err
                | Inr (next_window_start_img', e2, _) \<Rightarrow>
                    (case make_entry slicePositions window_start_img window_end_img e1 c
                            next_window_start_img' e2 d of
                       Inl err \<Rightarrow> Threw err
                     | Inr w \<Rightarrow> Continue next_window_start_img' (windows @ [w]))))"

text \<open>
  The step match only ranges over the positions after the current start, so each pass of
  the loop leaves fewer positions ahead: the \<^verbatim>\<open>while (true)\<close> loop is a terminating recursion.
\<close>

lemma reduce_min_mem:
  assumes "reduce_min errors = Inr r"
  shows "r \<in> set errors"
proof -
  have "foldl (\<lambda>min curr. if js_less (fst (snd curr)) (fst (snd min)) then curr else min) e es
          \<in> set (e # es)" for e :: "int \<times> jsnum \<times> rat" and es
    by (induction es arbitrary: e) auto
  then show ?thesis using assms by (auto simp: reduce_min_def split: list.splits)
qed

lemma get_asdf1_future:
  assumes "get_asdf1 positions start_index target_mm = Inr (k, e, c)"
  shows "k \<in> fst ` set (get_future_positions positions start_index)"
proof -
  from assms obtain start where
    "reduce_min (map (\<lambda>(key, c). (key, rel_error c target_mm, c))
       (map (\<lambda>(key, pos). (key, distance_mm start (Some pos)))
          (get_future_positions positions start_index))) = Inr (k, e, c)"
    by (auto simp: get_asdf1_def Let_def split: option.splits)
  from reduce_min_mem[OF this] show ?thesis by force
qed

lemma get_asdf_future:
  assumes "get_asdf positions start_index target_mm = Inr (k, e, c)"
  shows "k \<in> fst ` set (get_future_positions positions start_index)"
proof -
  from assms obtain start where
    "reduce_min (map (\<lambda>(key, c). (key, rel_error c target_mm, c))
       (map (\<lambda>(key, pos). (key, coverage_mm start (Some pos)))
          (get_future_positions positions start_index))) = Inr (k, e, c)"
    by (auto simp: get_asdf_def Let_def split: option.splits)
  from reduce_min_mem[OF this] show ?thesis by force
qed

lemma future_shrinks:
  assumes "k \<in> fst ` set (get_future_positions positions s)"
  shows "length (get_future_positions positions k) < length (get_future_positions positions s)"
proof -
  from assms obtain pos where m: "(k, pos) \<in> set positions" and gt: "s < k"
    by (auto simp: get_future_positions_def)
  have "get_future_positions positions k =
        filter (\<lambda>(key, pos). key > k) (get_future_positions positions s)"
    using gt by (auto simp: get_future_positions_def intro!: filter_cong)
  moreover have "(k, pos) \<in> set (get_future_positions positions s)"
    using m gt by (simp add: get_future_positions_def)
  ultimately show ?thesis
    by (metis (mono_tags, lifting) case_prod_conv length_filter_less less_irrefl)
qed

lemma get_windows_body_Continue:
  assumes "get_windows_body slicePositions x d n ws = Continue n' ws'"
  shows "n' \<in> fst ` set (get_future_positions slicePositions n)"
  using assms
  by (auto simp: get_windows_body_def Let_def split: sum.splits if_splits prod.splits
      dest!: get_asdf1_future)

function get_windows_loop ::
  "positions \<Rightarrow> rat \<times> rat \<Rightarrow> rat \<Rightarrow> int \<Rightarrow> entry list \<Rightarrow> js_error + entry list" where
  "get_windows_loop slicePositions x d next_window_start_img windows =
     (case get_windows_body slicePositions x d next_window_start_img windows of
        Threw err \<Rightarrow> Inl err
      | Broke ws \<Rightarrow> Inr ws
      | Continue next_window_start_img' windows' \<Rightarrow>
          get_windows_loop slicePositions x d next_window_start_img' windows')"
  by pat_completeness auto
termination
proof (relation "measure (\<lambda>(slicePositions, x, d, next_window_start_img, windows).
          length (get_future_positions slicePositions next_window_start_img))")
  show "wf (measure (\<lambda>(slicePositions, x, d, next_window_start_img, windows).
          length (get_future_positions slicePositions next_window_start_img)))" by simp
next
  fix slicePositions :: positions and x :: "rat \<times> rat" and d :: rat
    and next_window_start_img :: int and windows :: "entry list" and n' ws'
  assume "get_windows_body slicePositions x d next_window_start_img windows = Continue n' ws'"
  from future_shrinks[OF get_windows_body_Continue[OF this]]
  show "((slicePositions, x, d, n', ws'), slicePositions, x, d, next_window_start_img, windows)
        \<in> measure (\<lambda>(slicePositions, x, d, next_window_start_img, windows).
          length (get_future_positions slicePositions next_window_start_img))"
    by simp
qed

declare get_windows_loop.simps [simp del]

text \<open>
  \<^verbatim>\<open>smallestKey = Math.min(...Object.keys(slicePositions))\<close>. For an empty table it is
  \<^verbatim>\<open>Infinity\<close>, no position is in the future of it, and the first \<^verbatim>\<open>reduce\<close> raises.
\<close>

definition get_windows :: "positions \<Rightarrow> rat \<times> rat \<Rightarrow> js_error + entry list" where
  "get_windows slicePositions x =
     (case slicePositions of
        [] \<Rightarrow> Inl TypeError
      | p # ps \<Rightarrow>
          (let smallestKey = fold min (map fst ps) (fst p);
               window_start_img = smallestKey
           in (case get_asdf slicePositions window_start_img (fst x) of
                 Inl err \<Rightarrow> Inl err
               | Inr (window_end_img, e1, c) \<Rightarrow>
                   (case get_asdf1 slicePositions window_start_img (snd x) of
                      Inl err \<Rightarrow> Inl err
                    | Inr (next_window_start_img, e2, d) \<Rightarrow>
                        (case make_entry slicePositions window_start_img window_end_img e1 c
                                next_window_start_img e2 d of
                           Inl err \<Rightarrow> Inl err
                         | Inr w \<Rightarrow>
                             get_windows_loop slicePositions x d next_window_start_img [w])))))"

text \<open>
  The same generator with a bound on the number of window-generation steps: the first
  window and every pass of the loop body use one unit of \<open>fuel\<close>, and \<open>None\<close> means that the
  fuel ran out.
\<close>

fun get_windows_fuel ::
  "nat \<Rightarrow> positions \<Rightarrow> rat \<times> rat \<Rightarrow> rat \<Rightarrow> int \<Rightarrow> entry list \<Rightarrow> (js_error + entry list) option" where
  "get_windows_fuel 0 slicePositions x d next_window_start_img windows = None"
| "get_windows_fuel (Suc fuel) slicePositions x d next_window_start_img windows =
     (case get_windows_body slicePositions x d next_window_start_img windows of
        Threw err \<Rightarrow> Some (Inl err)
      | Broke ws \<Rightarrow> Some (Inr ws)
      | Continue next_window_start_img' windows' \<Rightarrow>
          get_windows_fuel fuel slicePositions x d next_window_start_img' windows')"

definition get_windows_within ::
  "nat \<Rightarrow> positions \<Rightarrow> rat \<times> rat \<Rightarrow> (js_error + entry list) option" where
  "get_windows_within fuel slicePositions x =
     (case fuel of
        0 \<Rightarrow> None
      | Suc fuel' \<Rightarrow>
          (case slicePositions of
             [] \<Rightarrow> Some (Inl TypeError)
           | p # ps \<Rightarrow>
               (let smallestKey = fold min (map fst ps) (fst p);
                    window_start_img = smallestKey
                in (case get_asdf slicePositions window_start_img (fst x) of
                      Inl err \<Rightarrow> Some (Inl err)
                    | Inr (window_end_img, e1, c) \<Rightarrow>
                        (case get_asdf1 slicePositions window_start_img (snd x) of
                           Inl err \<Rightarrow> Some (Inl err)
                         | Inr (next_window_start_img, e2, d) \<Rightarrow>
                             (case make_entry slicePositions window_start_img window_end_img e1 c
                                     next_window_start_img e2 d of
                                Inl err \<Rightarrow> Some (Inl err)
                              | Inr w \<Rightarrow>
                                  get_windows_fuel fuel' slicePositions x d
                                    next_window_start_img [w]))))))"

section \<open>Statistics, errors and cost of the position-aware variant\<close>

text \<open>
  The objects \<^verbatim>\<open>stats\<close>, \<^verbatim>\<open>targets\<close>, \<^verbatim>\<open>weights\<close> and \<^verbatim>\<open>errors\<close> have the three keys
  \<^verbatim>\<open>total_coverage\<close>, \<^verbatim>\<open>window_coverage\<close> and \<^verbatim>\<open>step_size\<close>: they are functions of the key.
\<close>

datatype criterion = Total_coverage | Window_coverage | Step_size

text \<open>
  \<^verbatim>\<open>get_stats\<close>: on an empty array \<^verbatim>\<open>windows[0]\<close> is \<^verbatim>\<open>undefined\<close> and reading its
  \<^verbatim>\<open>window\<close> raises. Each \<^verbatim>\<open>reduce\<close> starts from 0.
\<close>

definition get_stats :: "positions \<Rightarrow> entry list \<Rightarrow> js_error + (criterion \<Rightarrow> rat)" where
  "get_stats slicePositions windows =
     (case windows of
        [] \<Rightarrow> Inl TypeError
      | first_window # _ \<Rightarrow>
          (let last_window = last windows
           in (case (map_of slicePositions (start_img (window first_window)),
                     map_of slicePositions (end_img (window last_window))) of
                 (Some first_pos, Some last_pos) \<Rightarrow>
                   (let coverage = coverage_mm first_pos (Some last_pos);
                        window_coverage =
                          foldl (\<lambda>acc w. acc + win_coverage_mm (window w)) 0 windows
                            / rat_of_nat (length windows);
                        step_size =
                          foldl (\<lambda>acc w. acc + step_distance_mm (step w)) 0 windows
                            / rat_of_nat (length windows)
                    in Inr (\<lambda>key. case key of
                              Total_coverage \<Rightarrow> coverage
                            | Window_coverage \<Rightarrow> window_coverage
                            | Step_size \<Rightarrow> step_size))
               | _ \<Rightarrow> Inl TypeError)))"

text \<open>\<^verbatim>\<open>get_error\<close>, \<^verbatim>\<open>get_errors\<close>, \<^verbatim>\<open>get_cost\<close> and \<^verbatim>\<open>get_cost_sum\<close>.\<close>

definition get_error :: "(criterion \<Rightarrow> rat) \<Rightarrow> (criterion \<Rightarrow> rat) \<Rightarrow> criterion \<Rightarrow> jsnum" where
  "get_error targets stats key = rel_error (stats key) (targets key)"

definition get_errors :: "(criterion \<Rightarrow> rat) \<Rightarrow> (criterion \<Rightarrow> rat) \<Rightarrow> criterion \<Rightarrow> jsnum" where
  "get_errors targets stats =
     (\<lambda>key. case key of
        Total_coverage \<Rightarrow> get_error targets stats Total_coverage
      | Window_coverage \<Rightarrow> get_error targets stats Window_coverage
      | Step_size \<Rightarrow> get_error targets stats Step_size)"

definition get_cost :: "(criterion \<Rightarrow> rat) \<Rightarrow> (criterion \<Rightarrow> jsnum) \<Rightarrow> criterion \<Rightarrow> jsnum" where
  "get_cost weights errors key = js_times (Fin (weights key)) (errors key)"

definition get_cost_sum :: "(criterion \<Rightarrow> rat) \<Rightarrow> (criterion \<Rightarrow> jsnum) \<Rightarrow> jsnum" where
  "get_cost_sum weights errors =
     foldl (\<lambda>acc key. js_plus acc (get_cost weights errors key)) (Fin 0)
       [Total_coverage, Window_coverage, Step_size]"

text \<open>
  The weights of \<^verbatim>\<open>calculateWindows\<close> in the position-aware variant: \<^verbatim>\<open>raw_weights\<close> lists
  \<^verbatim>\<open>window_coverage\<close>, \<^verbatim>\<open>step_size\<close>, \<^verbatim>\<open>total_coverage\<close> in this order.
\<close>

definition normalize_weights :: "(criterion \<Rightarrow> rat) \<Rightarrow> criterion \<Rightarrow> rat" where
  "normalize_weights raw_weights =
     (let keys = [Window_coverage, Step_size, Total_coverage];
          totalWeight = foldl (\<lambda>acc val. acc + val) 0 (map raw_weights keys)
      in if totalWeight = 0
         then (let weight_count = length keys in (\<lambda>key. 1 / rat_of_nat weight_count))
         else (\<lambda>key. raw_weights key / totalWeight))"

section \<open>The four-parameter objective (\<^verbatim>\<open>optimizeWithNelderMead\<close>)\<close>

text \<open>
  The keys of the second variant, in the order of its array \<^verbatim>\<open>keys\<close>. The third key is
  \<^verbatim>\<open>step_or_overlap\<close> in one file and \<^verbatim>\<open>step_size\<close> in the other, the first \<^verbatim>\<open>window_length\<close>
  or \<^verbatim>\<open>window_coverage\<close>; the code is otherwise the same.
\<close>

datatype nm_key = Window_length | Window_number | Step_or_overlap | Percentage

definition keys :: "nm_key list" where
  "keys = [Window_length, Window_number, Step_or_overlap, Percentage]"

text \<open>
  Weight normalization at the head of \<^verbatim>\<open>optimizeWithNelderMead\<close>. The weights and targets
  are numbers read by \<^verbatim>\<open>parseFloat\<close>; \<^verbatim>\<open>x || y\<close> on a number \<open>x\<close> is \<open>y\<close> when \<open>x\<close> is 0
  (a \<^verbatim>\<open>NaN\<close> input is not modelled).
\<close>

definition js_or :: "rat \<Rightarrow> rat \<Rightarrow> rat" where
  "js_or a b = (if a = 0 then b else a)"

definition nm_normalize :: "(nm_key \<Rightarrow> rat) \<Rightarrow> nm_key \<Rightarrow> rat" where
  "nm_normalize weights =
     (let wsum = foldl (\<lambda>wsum k. wsum + js_or (weights k) 0) 0 keys;
          (weights', wsum') = (if wsum = 0 then (\<lambda>k. 1 / 4, 1) else (weights, wsum))
      in (\<lambda>k. js_or (weights' k) 0 / wsum'))"

definition scale_of :: "(nm_key \<Rightarrow> rat) \<Rightarrow> rat \<Rightarrow> nm_key \<Rightarrow> rat" where
  "scale_of targets sliceInterval =
     (\<lambda>k. case k of
        Window_length \<Rightarrow> max (js_or (targets Window_length) (5 * sliceInterval)) sliceInterval
      | Window_number \<Rightarrow> max (js_or (targets Window_number) 4) 2
      | Step_or_overlap \<Rightarrow> max (js_or (targets Step_or_overlap) (2 * sliceInterval)) sliceInterval
      | Percentage \<Rightarrow> max (js_or (targets Percentage) 80) 1)"

definition clampInt :: "rat \<Rightarrow> int \<Rightarrow> int \<Rightarrow> int" where
  "clampInt x lo hi = max lo (min hi \<lfloor>x\<rfloor>)"

text \<open>
  \<^verbatim>\<open>objectiveFunction(params)\<close>, with the variables it closes over as arguments. The
  parameter vector has four components; \<^verbatim>\<open>params[1]\<close> and \<^verbatim>\<open>pctTgt\<close> are not used. The
  division by \<^verbatim>\<open>sliceInterval\<close> is only modelled for a non-zero \<^verbatim>\<open>sliceInterval\<close>.
\<close>

definition objectiveFunction ::
  "int \<Rightarrow> (nm_key \<Rightarrow> rat) \<Rightarrow> rat \<Rightarrow> (nm_key \<Rightarrow> rat) \<Rightarrow> rat \<times> rat \<times> rat \<times> rat \<Rightarrow> rat" where
  "objectiveFunction totalImages targets sliceInterval weights params =
     (let (p0, p1, p2, p3) = params;
          scale = scale_of targets sliceInterval;
          windowCm = max p0 sliceInterval;
          stepCm = max p2 sliceInterval;
          pctTgt = max p3 0;
          windowImages = clampInt (windowCm / sliceInterval) 1 totalImages;
          stepImages = clampInt (stepCm / sliceInterval) 1 (max 1 (windowImages - 1));
          numWindows = (totalImages - windowImages) div stepImages + 1
      in if numWindows < 2 then 1000
         else
           let lastStart = (numWindows - 1) * stepImages;
               lastEnd = lastStart + windowImages - 1
           in if lastEnd \<ge> totalImages then 1000
              else
                let coverage = min (lastEnd + 1) totalImages;
                    coveragePct = (rat_of_int coverage / rat_of_int totalImages) * 100;
                    v = (\<lambda>k. case k of
                           Window_length \<Rightarrow> windowCm
                         | Window_number \<Rightarrow> rat_of_int numWindows
                         | Step_or_overlap \<Rightarrow> stepCm
                         | Percentage \<Rightarrow> coveragePct);
                    cost = foldl (\<lambda>cost k.
                             let t = targets k;
                                 s = js_or (scale k) 1;
                                 e = \<bar>v k - t\<bar> / s;
                                 h = (if e < 1 then (1 / 2) * e * e else e - 1 / 2)
                             in cost + js_or (weights k) 0 * h) 0 keys;
                    cost' = (if stepImages \<ge> windowImages then cost + 5 else cost)
                in cost' * 100)"

section \<open>The position-aware variant in binary64 arithmetic\<close>

text \<open>
  A JavaScript number is an IEEE 754 double, and every arithmetic operation returns the
  double nearest to its exact result. Exact rationals give the same comparisons as the code
  unless two compared values are closer than that rounding: a step target halfway between
  one and two slice spacings is such a case, the two candidate errors are equal in exact
  arithmetic and differ in the last digits in the code. For such inputs the position table,
  the two matches, the generator and the statistics are written once more, with the rounding
  of each operation explicit: \<open>rnd\<close> is applied to the exact result of every floating-point
  operation of the source. Integer arithmetic (\<^verbatim>\<open>totalImages - i\<close>, the image indices,
  \<^verbatim>\<open>windows.length\<close>) is exact in the code and carries no rounding; the comparisons are
  exact. The arguments are the values the code holds, so they are doubles themselves.

  \<open>binary64 q\<close> is the double nearest to \<open>q\<close>, a tie going to the even significand. The
  doubles around \<open>q\<close> are the integer multiples of \<open>2 ^ k\<close>, where \<open>k = e - 52\<close> for
  \<open>2 ^ e \<le> \<bar>q\<bar> < 2 ^ (e + 1)\<close>, and \<open>k = - 1074\<close> in the subnormal range. Overflow to
  \<^verbatim>\<open>Infinity\<close> (from \<open>2 ^ 1024\<close> on) is not modelled.
\<close>

definition pow2 :: "int \<Rightarrow> rat" where
  "pow2 k = (if 0 \<le> k then 2 ^ nat k else 1 / 2 ^ nat (- k))"

text \<open>
  The binary exponent of a positive rational: halving counts it up from 1, doubling counts
  it down.
\<close>

function exponent_up :: "rat \<Rightarrow> int" where
  "exponent_up a = (if 2 \<le> a then exponent_up (a / 2) + 1 else 0)"
  by pat_completeness auto
termination
proof (relation "measure (\<lambda>a. nat \<lfloor>a\<rfloor>)")
  fix a :: rat
  assume a: "2 \<le> a"
  then have f: "2 \<le> \<lfloor>a\<rfloor>" by (simp add: le_floor_iff)
  have "a < rat_of_int \<lfloor>a\<rfloor> + 1" by linarith
  then have "a / 2 < rat_of_int \<lfloor>a\<rfloor>" using f by linarith
  then have "\<lfloor>a / 2\<rfloor> < \<lfloor>a\<rfloor>" by (simp add: floor_less_iff)
  then show "(a / 2, a) \<in> measure (\<lambda>a. nat \<lfloor>a\<rfloor>)" using f by simp
qed simp

function exponent_down :: "rat \<Rightarrow> int" where
  "exponent_down a = (if 0 < a \<and> a < 1 then exponent_down (a * 2) - 1 else 0)"
  by pat_completeness auto
termination
proof (relation "measure (\<lambda>a. nat \<lceil>1 / a\<rceil>)")
  fix a :: rat
  assume a: "0 < a \<and> a < 1"
  define y where "y = 1 / a"
  have y: "1 < y" using a by (simp add: y_def)
  then have c: "2 \<le> \<lceil>y\<rceil>" by (simp add: le_ceiling_iff)
  have "y \<le> rat_of_int \<lceil>y\<rceil>" by linarith
  then have "y / 2 \<le> rat_of_int \<lceil>y\<rceil> - 1" using c by linarith
  then have lt: "\<lceil>y / 2\<rceil> < \<lceil>y\<rceil>" by (simp add: ceiling_less_iff)
  have eq: "1 / (a * 2) = y / 2" by (simp add: y_def)
  have "nat \<lceil>y / 2\<rceil> < nat \<lceil>y\<rceil>" using lt c by linarith
  then show "(a * 2, a) \<in> measure (\<lambda>a. nat \<lceil>1 / a\<rceil>)"
    by (simp only: in_measure eq y_def[symmetric])
qed simp

declare exponent_up.simps [simp del] exponent_down.simps [simp del]

definition exponent2 :: "rat \<Rightarrow> int" where
  "exponent2 a = (if 1 \<le> a then exponent_up a else exponent_down a)"

definition nearest_even :: "rat \<Rightarrow> int" where
  "nearest_even m =
     (let f = \<lfloor>m\<rfloor>;
          r = m - rat_of_int f
      in if r < 1 / 2 then f
         else if 1 / 2 < r then f + 1
         else if even f then f else f + 1)"

definition binary64 :: "rat \<Rightarrow> rat" where
  "binary64 q =
     (if q = 0 then 0
      else
        let a = \<bar>q\<bar>;
            k = max (exponent2 a - 52) (- 1074);
            r = rat_of_int (nearest_even (a / pow2 k)) * pow2 k
        in if 0 < q then r else - r)"

text \<open>\<^verbatim>\<open>getSlicePositions\<close>: the quotient and each product round.\<close>

function getSlicePositions_loop_fl ::
  "(rat \<Rightarrow> rat) \<Rightarrow> int \<Rightarrow> rat \<Rightarrow> rat \<Rightarrow> int \<Rightarrow> positions \<Rightarrow> positions" where
  "getSlicePositions_loop_fl rnd totalImages spaceBetweenSlices sliceThickness i positions =
     (if i > 0
      then getSlicePositions_loop_fl rnd totalImages spaceBetweenSlices sliceThickness (i - 1)
             ((i, \<lparr>rel_center_mm = rnd (rat_of_int (totalImages - i) * spaceBetweenSlices),
                   pos_thickness_mm = sliceThickness\<rparr>) # positions)
      else positions)"
  by pat_completeness auto
termination
  by (relation "measure (\<lambda>(rnd, totalImages, spaceBetweenSlices, sliceThickness, i, positions). nat i)")
    auto

declare getSlicePositions_loop_fl.simps [simp del]

definition getSlicePositions_fl :: "(rat \<Rightarrow> rat) \<Rightarrow> int \<Rightarrow> rat \<Rightarrow> rat \<Rightarrow> positions" where
  "getSlicePositions_fl rnd totalImages totalLength sliceThickness =
     (let spaceBetweenSlices = rnd (totalLength / rat_of_int (totalImages - 1))
      in getSlicePositions_loop_fl rnd totalImages spaceBetweenSlices sliceThickness totalImages [])"

text \<open>
  \<^verbatim>\<open>(Math.abs(c - target) / target) * 100\<close> rounds the difference, the quotient and the
  product; \<^verbatim>\<open>Math.abs(end_pos - start_pos)\<close> rounds the difference;
  \<^verbatim>\<open>(start["thickness_mm"] + end["thickness_mm"]) / 2\<close> rounds the sum and the quotient;
  \<^verbatim>\<open>distance + thickness\<close> rounds the sum.
\<close>

definition rel_error_fl :: "(rat \<Rightarrow> rat) \<Rightarrow> rat \<Rightarrow> rat \<Rightarrow> jsnum" where
  "rel_error_fl rnd c target =
     (if target = 0 then (if c - target = 0 then NaN else PInf)
      else Fin (rnd (rnd (\<bar>rnd (c - target)\<bar> / target) * 100)))"

definition distance_mm_fl :: "(rat \<Rightarrow> rat) \<Rightarrow> position \<Rightarrow> position option \<Rightarrow> rat" where
  "distance_mm_fl rnd start end' =
     (case end' of None \<Rightarrow> 0
      | Some e \<Rightarrow>
          let start_pos = rel_center_mm start;
              end_pos = rel_center_mm e
          in \<bar>rnd (end_pos - start_pos)\<bar>)"

definition thickness_mm_fl :: "(rat \<Rightarrow> rat) \<Rightarrow> position \<Rightarrow> position option \<Rightarrow> rat" where
  "thickness_mm_fl rnd start end' =
     (case end' of None \<Rightarrow> pos_thickness_mm start
      | Some e \<Rightarrow> rnd (rnd (pos_thickness_mm start + pos_thickness_mm e) / 2))"

definition coverage_mm_fl :: "(rat \<Rightarrow> rat) \<Rightarrow> position \<Rightarrow> position option \<Rightarrow> rat" where
  "coverage_mm_fl rnd start end' =
     (case end' of None \<Rightarrow> pos_thickness_mm start
      | Some e \<Rightarrow>
          let distance = distance_mm_fl rnd start end';
              thickness = thickness_mm_fl rnd start end'
          in rnd (distance + thickness))"

text \<open>
  \<^verbatim>\<open>get_asdf\<close> and \<^verbatim>\<open>get_asdf1\<close> on these measures. The entries are compared with
  \<open>reduce_min\<close> as before.
\<close>

definition get_asdf_fl ::
  "(rat \<Rightarrow> rat) \<Rightarrow> positions \<Rightarrow> int \<Rightarrow> rat \<Rightarrow> js_error + (int \<times> jsnum \<times> rat)" where
  "get_asdf_fl rnd positions start_index target_mm =
     (let future_positions_mm = get_future_positions positions start_index
      in case map_of positions start_index of
           None \<Rightarrow> Inl TypeError
         | Some start \<Rightarrow>
             let coverages_mm =
                   map (\<lambda>(key, pos). (key, coverage_mm_fl rnd start (Some pos))) future_positions_mm;
                 errors = map (\<lambda>(key, c). (key, rel_error_fl rnd c target_mm, c)) coverages_mm
             in reduce_min errors)"

definition get_asdf1_fl ::
  "(rat \<Rightarrow> rat) \<Rightarrow> positions \<Rightarrow> int \<Rightarrow> rat \<Rightarrow> js_error + (int \<times> jsnum \<times> rat)" where
  "get_asdf1_fl rnd positions start_index target_mm =
     (let future_positions_mm = get_future_positions positions start_index
      in case map_of positions start_index of
           None \<Rightarrow> Inl TypeError
         | Some start \<Rightarrow>
             let distances_mm =
                   map (\<lambda>(key, pos). (key, distance_mm_fl rnd start (Some pos))) future_positions_mm;
                 errors = map (\<lambda>(key, c). (key, rel_error_fl rnd c target_mm, c)) distances_mm
             in reduce_min errors)"

text \<open>
  The loop body and the generator. The object literal holds no floating-point operation, so
  \<open>make_entry\<close> is the one above.
\<close>

definition get_windows_body_fl ::
  "(rat \<Rightarrow> rat) \<Rightarrow> positions \<Rightarrow> rat \<times> rat \<Rightarrow> rat \<Rightarrow> int \<Rightarrow> entry list \<Rightarrow> iteration" where
  "get_windows_body_fl rnd slicePositions x d next_window_start_img windows =
     (let window_start_img = next_window_start_img
      in case get_asdf_fl rnd slicePositions window_start_img (fst x) of
           Inl err \<Rightarrow> Threw err
         | Inr (window_end_img, e1, c) \<Rightarrow>
             if js_less (Fin 1) e1 then Broke windows
             else
               (case get_asdf1_fl rnd slicePositions window_start_img (snd x) of
                  Inl err \<Rightarrow> Threw err
                | Inr (next_window_start_img', e2, _) \<Rightarrow>
                    (case make_entry slicePositions window_start_img window_end_img e1 c
                            next_window_start_img' e2 d of
                       Inl err \<Rightarrow> Threw err
                     | Inr w \<Rightarrow> Continue next_window_start_img' (windows @ [w]))))"

lemma get_asdf1_fl_future:
  assumes "get_asdf1_fl rnd positions start_index target_mm = Inr (k, e, c)"
  shows "k \<in> fst ` set (get_future_positions positions start_index)"
proof -
  from assms obtain start where
    "reduce_min (map (\<lambda>(key, c). (key, rel_error_fl rnd c target_mm, c))
       (map (\<lambda>(key, pos). (key, distance_mm_fl rnd start (Some pos)))
          (get_future_positions positions start_index))) = Inr (k, e, c)"
    by (auto simp: get_asdf1_fl_def Let_def split: option.splits)
  from reduce_min_mem[OF this] show ?thesis by force
qed

lemma get_windows_body_fl_Continue:
  assumes "get_windows_body_fl rnd slicePositions x d n ws = Continue n' ws'"
  shows "n' \<in> fst ` set (get_future_positions slicePositions n)"
  using assms
  by (auto simp: get_windows_body_fl_def Let_def split: sum.splits if_splits prod.splits
      dest!: get_asdf1_fl_future)

function get_windows_loop_fl ::
  "(rat \<Rightarrow> rat) \<Rightarrow> positions \<Rightarrow> rat \<times> rat \<Rightarrow> rat \<Rightarrow> int \<Rightarrow> entry list \<Rightarrow> js_error + entry list" where
  "get_windows_loop_fl rnd slicePositions x d next_window_start_img windows =
     (case get_windows_body_fl rnd slicePositions x d next_window_start_img windows of
        Threw err \<Rightarrow> Inl err
      | Broke ws \<Rightarrow> Inr ws
      | Continue next_window_start_img' windows' \<Rightarrow>
          get_windows_loop_fl rnd slicePositions x d next_window_start_img' windows')"
  by pat_completeness auto
termination
proof (relation "measure (\<lambda>(rnd, slicePositions, x, d, next_window_start_img, windows).
          length (get_future_positions slicePositions next_window_start_img))")
  show "wf (measure (\<lambda>(rnd :: rat \<Rightarrow> rat, slicePositions, x :: rat \<times> rat, d :: rat,
            next_window_start_img, windows :: entry list).
          length (get_future_positions slicePositions next_window_start_img)))" by simp
next
  fix rnd :: "rat \<Rightarrow> rat" and slicePositions :: positions and x :: "rat \<times> rat" and d :: rat
    and next_window_start_img :: int and windows :: "entry list" and n' ws'
  assume "get_windows_body_fl rnd slicePositions x d next_window_start_img windows = Continue n' ws'"
  from future_shrinks[OF get_windows_body_fl_Continue[OF this]]
  show "((rnd, slicePositions, x, d, n', ws'), rnd, slicePositions, x, d, next_window_start_img, windows)
        \<in> measure (\<lambda>(rnd, slicePositions, x, d, next_window_start_img, windows).
          length (get_future_positions slicePositions next_window_start_img))"
    by simp
qed

declare get_windows_loop_fl.simps [simp del]

definition get_windows_fl ::
  "(rat \<Rightarrow> rat) \<Rightarrow> positions \<Rightarrow> rat \<times> rat \<Rightarrow> js_error + entry list" where
  "get_windows_fl rnd slicePositions x =
     (case slicePositions of
        [] \<Rightarrow> Inl TypeError
      | p # ps \<Rightarrow>
          (let smallestKey = fold min (map fst ps) (fst p);
               window_start_img = smallestKey
           in (case get_asdf_fl rnd slicePositions window_start_img (fst x) of
                 Inl err \<Rightarrow> Inl err
               | Inr (window_end_img, e1, c) \<Rightarrow>
                   (case get_asdf1_fl rnd slicePositions window_start_img (snd x) of
                      Inl err \<Rightarrow> Inl err
                    | Inr (next_window_start_img, e2, d) \<Rightarrow>
                        (case make_entry slicePositions window_start_img window_end_img e1 c
                                next_window_start_img e2 d of
                           Inl err \<Rightarrow> Inl err
                         | Inr w \<Rightarrow>
                             get_windows_loop_fl rnd slicePositions x d next_window_start_img [w])))))"

text \<open>
  \<^verbatim>\<open>get_stats\<close>: each \<^verbatim>\<open>acc + ...\<close> of a \<^verbatim>\<open>reduce\<close> rounds, and so does the division by
  \<^verbatim>\<open>windows.length\<close>.
\<close>

definition get_stats_fl ::
  "(rat \<Rightarrow> rat) \<Rightarrow> positions \<Rightarrow> entry list \<Rightarrow> js_error + (criterion \<Rightarrow> rat)" where
  "get_stats_fl rnd slicePositions windows =
     (case windows of
        [] \<Rightarrow> Inl TypeError
      | first_window # _ \<Rightarrow>
          (let last_window = last windows
           in (case (map_of slicePositions (start_img (window first_window)),
                     map_of slicePositions (end_img (window last_window))) of
                 (Some first_pos, Some last_pos) \<Rightarrow>
                   (let coverage = coverage_mm_fl rnd first_pos (Some last_pos);
                        window_coverage =
                          rnd (foldl (\<lambda>acc w. rnd (acc + win_coverage_mm (window w))) 0 windows
                            / rat_of_nat (length windows));
                        step_size =
                          rnd (foldl (\<lambda>acc w. rnd (acc + step_distance_mm (step w))) 0 windows
                            / rat_of_nat (length windows))
                    in Inr (\<lambda>key. case key of
                              Total_coverage \<Rightarrow> coverage
                            | Window_coverage \<Rightarrow> window_coverage
                            | Step_size \<Rightarrow> step_size))
               | _ \<Rightarrow> Inl TypeError)))"

chapter \<open>Verification\<close>

section \<open>Optimality and totality of the brute-force search\<close>

text \<open>
  A candidate size is one the loop may select: its step is positive and its last window
  does not overrun the sequence.
\<close>

definition candidate :: "int \<Rightarrow> int \<Rightarrow> int \<Rightarrow> int \<Rightarrow> bool" where
  "candidate totalImages numWindows overlapPercent windowSize \<longleftrightarrow>
     1 \<le> windowSize \<and> windowSize \<le> totalImages \<and>
     0 < stepSize_of windowSize overlapPercent \<and>
     lastWindowEnd_of numWindows overlapPercent windowSize < totalImages"

definition best_so_far :: "int \<Rightarrow> int \<Rightarrow> int \<Rightarrow> int \<Rightarrow> int \<times> rat \<Rightarrow> bool" where
  "best_so_far totalImages numWindows overlapPercent windowSize best \<longleftrightarrow>
     (if \<exists>w. w < windowSize \<and> candidate totalImages numWindows overlapPercent w
      then fst best < windowSize \<and> candidate totalImages numWindows overlapPercent (fst best) \<and>
           snd best = rat_of_int (coverage_of totalImages numWindows overlapPercent (fst best))
                        / rat_of_int totalImages \<and>
           (\<forall>w. w < windowSize \<and> candidate totalImages numWindows overlapPercent w \<longrightarrow>
              coverage_of totalImages numWindows overlapPercent w
                \<le> coverage_of totalImages numWindows overlapPercent (fst best) \<and>
              (coverage_of totalImages numWindows overlapPercent w
                 = coverage_of totalImages numWindows overlapPercent (fst best) \<longrightarrow> fst best \<le> w))
      else best = (1, 0))"

lemma best_so_farI_none:
  assumes "\<And>v. v < w \<Longrightarrow> \<not> candidate N k p v"
  shows "best_so_far N k p w (1, 0)"
  using assms by (auto simp: best_so_far_def)

lemma best_so_farI_some:
  assumes "candidate N k p b" "b < w"
    and "c = rat_of_int (coverage_of N k p b) / rat_of_int N"
    and "\<And>v. v < w \<Longrightarrow> candidate N k p v \<Longrightarrow>
           coverage_of N k p v \<le> coverage_of N k p b \<and>
           (coverage_of N k p v = coverage_of N k p b \<longrightarrow> b \<le> v)"
  shows "best_so_far N k p w (b, c)"
proof -
  have "\<exists>v. v < w \<and> candidate N k p v" using assms(1,2) by blast
  then show ?thesis using assms by (simp add: best_so_far_def)
qed

lemma best_so_farD_none:
  assumes "best_so_far N k p w best" "\<not> (\<exists>v. v < w \<and> candidate N k p v)"
  shows "best = (1, 0)"
  using assms by (simp add: best_so_far_def)

lemma best_so_farD_some:
  assumes "best_so_far N k p w best" "v < w" "candidate N k p v"
  shows "fst best < w" "candidate N k p (fst best)"
    "snd best = rat_of_int (coverage_of N k p (fst best)) / rat_of_int N"
    "\<And>u. u < w \<Longrightarrow> candidate N k p u \<Longrightarrow>
       coverage_of N k p u \<le> coverage_of N k p (fst best) \<and>
       (coverage_of N k p u = coverage_of N k p (fst best) \<longrightarrow> fst best \<le> u)"
proof -
  have ex: "\<exists>v. v < w \<and> candidate N k p v" using assms(2,3) by blast
  have all: "fst best < w \<and> candidate N k p (fst best) \<and>
    snd best = rat_of_int (coverage_of N k p (fst best)) / rat_of_int N \<and>
    (\<forall>u. u < w \<and> candidate N k p u \<longrightarrow>
       coverage_of N k p u \<le> coverage_of N k p (fst best) \<and>
       (coverage_of N k p u = coverage_of N k p (fst best) \<longrightarrow> fst best \<le> u))"
    using assms(1) ex unfolding best_so_far_def by presburger
  from all show "fst best < w" by blast
  from all show "candidate N k p (fst best)" by blast
  from all show "snd best = rat_of_int (coverage_of N k p (fst best)) / rat_of_int N"
    by blast
  show "\<And>u. u < w \<Longrightarrow> candidate N k p u \<Longrightarrow>
       coverage_of N k p u \<le> coverage_of N k p (fst best) \<and>
       (coverage_of N k p u = coverage_of N k p (fst best) \<longrightarrow> fst best \<le> u)"
    using all by blast
qed

lemma candidate_coverage_pos:
  assumes "1 \<le> k" "candidate N k p w"
  shows "0 < coverage_of N k p w"
proof -
  from assms have s: "0 < stepSize_of w p" and w: "1 \<le> w" "w \<le> N"
    by (simp_all add: candidate_def)
  have "0 \<le> (k - 1) * stepSize_of w p" using assms(1) s by simp
  then have "1 \<le> lastWindowEnd_of k p w + 1" using w by (simp add: lastWindowEnd_of_def Let_def)
  then show ?thesis using w by (simp add: coverage_of_def)
qed

lemma percent_less_iff:
  "0 < N \<Longrightarrow> rat_of_int a / rat_of_int N < rat_of_int b / rat_of_int N \<longleftrightarrow> a < b"
  by (simp add: divide_less_cancel)

lemma body_not_candidate:
  assumes "1 \<le> w" "w \<le> N" "\<not> candidate N k p w"
  shows "optimizeWindowSize_body N k p w best = best"
  using assms by (auto simp: optimizeWindowSize_body_def candidate_def Let_def)

lemma body_candidate:
  assumes "candidate N k p w"
  shows "optimizeWindowSize_body N k p w best =
     (if snd best < rat_of_int (coverage_of N k p w) / rat_of_int N
      then (w, rat_of_int (coverage_of N k p w) / rat_of_int N) else best)"
  using assms by (auto simp: optimizeWindowSize_body_def candidate_def Let_def)

lemma best_so_far_step:
  assumes N: "1 \<le> N" and k: "1 \<le> k" and w: "1 \<le> w" "w \<le> N"
    and inv: "best_so_far N k p w best"
  shows "best_so_far N k p (w + 1) (optimizeWindowSize_body N k p w best)"
proof (cases "candidate N k p w")
  case False
  have eq: "optimizeWindowSize_body N k p w best = best"
    using w False by (rule body_not_candidate)
  show ?thesis
  proof (cases "\<exists>v. v < w \<and> candidate N k p v")
    case True
    then obtain v where v: "v < w" "candidate N k p v" by blast
    note d = best_so_farD_some[OF inv v]
    have "best_so_far N k p (w + 1) (fst best, snd best)"
    proof (rule best_so_farI_some[OF d(2) _ d(3)])
      show "fst best < w + 1" using d(1) by simp
    next
      fix u assume u: "u < w + 1" "candidate N k p u"
      then have "u < w" using False by (cases "u = w") auto
      then show "coverage_of N k p u \<le> coverage_of N k p (fst best) \<and>
           (coverage_of N k p u = coverage_of N k p (fst best) \<longrightarrow> fst best \<le> u)"
        using d(4) u(2) by blast
    qed
    then show ?thesis by (simp add: eq)
  next
    case none: False
    have b: "best = (1, 0)" using inv none by (rule best_so_farD_none)
    have "best_so_far N k p (w + 1) (1, 0)"
    proof (rule best_so_farI_none)
      fix u assume "u < w + 1"
      then show "\<not> candidate N k p u" using False none by (cases "u = w") auto
    qed
    then show ?thesis unfolding eq unfolding b .
  qed
next
  case True
  note body = body_candidate[OF True, of best]
  have pos: "0 < coverage_of N k p w" by (rule candidate_coverage_pos[OF k True])
  have Npos: "0 < N" using N by simp
  let ?c = "rat_of_int (coverage_of N k p w) / rat_of_int N"
  show ?thesis
  proof (cases "\<exists>v. v < w \<and> candidate N k p v")
    case False
    have b: "best = (1, 0)" using inv False by (rule best_so_farD_none)
    have "0 < ?c" using pos Npos by simp
    then have eq: "optimizeWindowSize_body N k p w best = (w, ?c)" using body b by simp
    have "best_so_far N k p (w + 1) (w, ?c)"
    proof (rule best_so_farI_some[OF True _ refl])
      show "w < w + 1" by simp
    next
      fix u assume u: "u < w + 1" "candidate N k p u"
      then have "u = w" using False by (cases "u = w") auto
      then show "coverage_of N k p u \<le> coverage_of N k p w \<and>
           (coverage_of N k p u = coverage_of N k p w \<longrightarrow> w \<le> u)" by simp
    qed
    then show ?thesis by (simp only: eq)
  next
    case old: True
    then obtain v where v: "v < w" "candidate N k p v" by blast
    note d = best_so_farD_some[OF inv v]
    show ?thesis
    proof (cases "coverage_of N k p (fst best) < coverage_of N k p w")
      case better: True
      then have "snd best < ?c" using d(3) percent_less_iff[OF Npos] by simp
      then have eq: "optimizeWindowSize_body N k p w best = (w, ?c)" using body by simp
      have "best_so_far N k p (w + 1) (w, ?c)"
      proof (rule best_so_farI_some[OF True _ refl])
        show "w < w + 1" by simp
      next
        fix u assume u: "u < w + 1" "candidate N k p u"
        show "coverage_of N k p u \<le> coverage_of N k p w \<and>
           (coverage_of N k p u = coverage_of N k p w \<longrightarrow> w \<le> u)"
        proof (cases "u = w")
          case True then show ?thesis by simp
        next
          case False
          then have "u < w" using u(1) by simp
          then have "coverage_of N k p u \<le> coverage_of N k p (fst best)"
            using d(4) u(2) by blast
          then show ?thesis using better by simp
        qed
      qed
      then show ?thesis by (simp only: eq)
    next
      case worse: False
      then have "\<not> snd best < ?c" using d(3) percent_less_iff[OF Npos] by simp
      then have eq: "optimizeWindowSize_body N k p w best = best" using body by simp
      have "best_so_far N k p (w + 1) (fst best, snd best)"
      proof (rule best_so_farI_some[OF d(2) _ d(3)])
        show "fst best < w + 1" using d(1) by simp
      next
        fix u assume u: "u < w + 1" "candidate N k p u"
        show "coverage_of N k p u \<le> coverage_of N k p (fst best) \<and>
           (coverage_of N k p u = coverage_of N k p (fst best) \<longrightarrow> fst best \<le> u)"
        proof (cases "u = w")
          case True then show ?thesis using worse d(1) by simp
        next
          case False
          then have "u < w" using u(1) by simp
          then show ?thesis using d(4) u(2) by blast
        qed
      qed
      then show ?thesis by (simp add: eq)
    qed
  qed
qed

lemma loop_best_so_far:
  assumes "1 \<le> N" "1 \<le> k" "1 \<le> w" "best_so_far N k p w best"
  shows "\<exists>c. best_so_far N k p (max w (N + 1)) (optimizeWindowSize_loop N k p w best, c)"
  using assms
proof (induction N k p w best rule: optimizeWindowSize_loop.induct)
  case (1 N k p w best)
  show ?case
  proof (cases "w \<le> N")
    case True
    have "best_so_far N k p (w + 1) (optimizeWindowSize_body N k p w best)"
      using best_so_far_step[OF "1.prems"(1,2,3) True "1.prems"(4)] .
    moreover have "optimizeWindowSize_loop N k p w best =
        optimizeWindowSize_loop N k p (w + 1) (optimizeWindowSize_body N k p w best)"
      using True by (simp add: optimizeWindowSize_loop.simps)
    moreover have "max (w + 1) (N + 1) = max w (N + 1)" using True by simp
    ultimately show ?thesis using "1.IH"[OF True "1.prems"(1,2)] "1.prems"(3) by simp
  next
    case False
    then have "optimizeWindowSize_loop N k p w best = fst best"
      by (simp add: optimizeWindowSize_loop.simps)
    moreover have "max w (N + 1) = w" using False by simp
    ultimately show ?thesis using "1.prems"(4) by (intro exI[of _ "snd best"]) simp
  qed
qed

lemma init_best_so_far: "best_so_far N k p 1 (1, 0)"
  by (simp add: best_so_far_def candidate_def)

text \<open>
  Claim C1. For \<open>totalImages \<ge> 1\<close> and \<open>numWindows \<ge> 1\<close>, whenever some window size is a
  candidate (positive step, last window inside the sequence), the size returned by
  \<^verbatim>\<open>optimizeWindowSize\<close> is itself a candidate in \<open>[1, totalImages]\<close>, no candidate covers
  more than it does, and every candidate that covers as much is at least as large: the
  result is the smallest coverage-maximizing candidate. The function is a HOL function,
  so equal arguments give equal results.
\<close>

theorem optimizeWindowSize_optimal:
  assumes "1 \<le> totalImages" "1 \<le> numWindows"
    and "candidate totalImages numWindows overlapPercent w"
  shows "candidate totalImages numWindows overlapPercent
           (optimizeWindowSize totalImages numWindows overlapPercent) \<and>
         coverage_of totalImages numWindows overlapPercent w
           \<le> coverage_of totalImages numWindows overlapPercent
                (optimizeWindowSize totalImages numWindows overlapPercent) \<and>
         (coverage_of totalImages numWindows overlapPercent w
            = coverage_of totalImages numWindows overlapPercent
                (optimizeWindowSize totalImages numWindows overlapPercent)
          \<longrightarrow> optimizeWindowSize totalImages numWindows overlapPercent \<le> w)"
proof -
  have "max 1 (totalImages + 1) = totalImages + 1" using assms(1) by simp
  then obtain c where inv: "best_so_far totalImages numWindows overlapPercent (totalImages + 1)
      (optimizeWindowSize totalImages numWindows overlapPercent, c)"
    using loop_best_so_far[OF assms(1,2) _ init_best_so_far, of overlapPercent]
    by (auto simp: optimizeWindowSize_def)
  have w: "w < totalImages + 1" using assms(3) by (simp add: candidate_def)
  note d = best_so_farD_some[OF inv w assms(3)]
  show ?thesis using d(2) d(4)[OF w assms(3)] by simp
qed

lemma candidate_20_4_25_5: "candidate 20 4 25 5"
  by (simp add: candidate_def stepSize_of_def lastWindowEnd_of_def)

lemma optimizeWindowSize_20_4_25: "optimizeWindowSize 20 4 25 = 5"
  by (simp add: optimizeWindowSize_def optimizeWindowSize_loop.simps optimizeWindowSize_body_def
     stepSize_of_def lastWindowEnd_of_def coverage_of_def Let_def)

theorem optimizeWindowSize_optimal_witness:
  "(1::int) \<le> 20 \<and> (1::int) \<le> 4 \<and> candidate 20 4 25 5 \<and>
   candidate 20 4 25 (optimizeWindowSize 20 4 25) \<and>
   coverage_of 20 4 25 5 \<le> coverage_of 20 4 25 (optimizeWindowSize 20 4 25)"
  using optimizeWindowSize_optimal[where totalImages=20 and numWindows=4 and overlapPercent=25 and w=5] candidate_20_4_25_5 by simp

lemma body_fst_range:
  assumes "1 \<le> fst best" "fst best \<le> N" "1 \<le> w" "w \<le> N"
  shows "1 \<le> fst (optimizeWindowSize_body N k p w best) \<and>
         fst (optimizeWindowSize_body N k p w best) \<le> N"
  using assms by (simp add: optimizeWindowSize_body_def Let_def)

lemma loop_range:
  assumes "1 \<le> fst best" "fst best \<le> N" "1 \<le> w"
  shows "1 \<le> optimizeWindowSize_loop N k p w best \<and> optimizeWindowSize_loop N k p w best \<le> N"
  using assms
proof (induction N k p w best rule: optimizeWindowSize_loop.induct)
  case (1 N k p w best)
  show ?case
  proof (cases "w \<le> N")
    case True
    have r: "1 \<le> fst (optimizeWindowSize_body N k p w best) \<and>
         fst (optimizeWindowSize_body N k p w best) \<le> N"
      using "1.prems" True by (intro body_fst_range) simp_all
    have "optimizeWindowSize_loop N k p w best =
        optimizeWindowSize_loop N k p (w + 1) (optimizeWindowSize_body N k p w best)"
      using True by (simp add: optimizeWindowSize_loop.simps)
    then show ?thesis using "1.IH"[OF True] r "1.prems"(3) by simp
  next
    case False
    then show ?thesis using "1.prems" by (simp add: optimizeWindowSize_loop.simps)
  qed
qed

lemma loop_no_candidate:
  assumes "\<And>v. \<not> candidate N k p v" "1 \<le> w"
  shows "optimizeWindowSize_loop N k p w best = fst best"
  using assms
proof (induction N k p w best rule: optimizeWindowSize_loop.induct)
  case (1 N k p w best)
  show ?case
  proof (cases "w \<le> N")
    case True
    have eq: "optimizeWindowSize_body N k p w best = best"
      using "1.prems"(2) True "1.prems"(1) by (rule body_not_candidate)
    have "optimizeWindowSize_loop N k p w best =
        optimizeWindowSize_loop N k p (w + 1) (optimizeWindowSize_body N k p w best)"
      using True by (simp add: optimizeWindowSize_loop.simps)
    then show ?thesis using "1.IH"[OF True "1.prems"(1)] "1.prems"(2) eq by simp
  next
    case False
    then show ?thesis by (simp add: optimizeWindowSize_loop.simps)
  qed
qed

lemma optimizeWindowSize_range:
  assumes "1 \<le> totalImages"
  shows "1 \<le> optimizeWindowSize totalImages numWindows overlapPercent \<and>
         optimizeWindowSize totalImages numWindows overlapPercent \<le> totalImages"
  unfolding optimizeWindowSize_def using assms by (intro loop_range) simp_all

text \<open>
  Claim C10. For \<open>totalImages \<ge> 1\<close> and every window count and overlap percentage,
  \<^verbatim>\<open>optimizeWindowSize\<close> returns a size in \<open>[1, totalImages]\<close> (it is total: the loop is
  defined by a terminating recursion and has no failing branch), and when no size is a
  candidate it returns the initial value 1.
\<close>

theorem optimizeWindowSize_total:
  assumes "1 \<le> totalImages"
  shows "1 \<le> optimizeWindowSize totalImages numWindows overlapPercent \<and>
         optimizeWindowSize totalImages numWindows overlapPercent \<le> totalImages \<and>
         ((\<forall>w. \<not> candidate totalImages numWindows overlapPercent w) \<longrightarrow>
            optimizeWindowSize totalImages numWindows overlapPercent = 1)"
proof -
  have "1 \<le> optimizeWindowSize totalImages numWindows overlapPercent \<and>
         optimizeWindowSize totalImages numWindows overlapPercent \<le> totalImages"
    unfolding optimizeWindowSize_def using assms by (intro loop_range) simp_all
  moreover have "optimizeWindowSize totalImages numWindows overlapPercent = 1"
    if "\<forall>w. \<not> candidate totalImages numWindows overlapPercent w"
    unfolding optimizeWindowSize_def using loop_no_candidate[of totalImages numWindows overlapPercent 1 "(1, 0)"] that
    by simp
  ultimately show ?thesis by blast
qed

lemma no_candidate_3_5_0: "\<not> candidate 3 5 0 w"
  by (simp add: candidate_def stepSize_of_def lastWindowEnd_of_def)

theorem optimizeWindowSize_total_witness:
  "(1::int) \<le> 3 \<and> (\<forall>w. \<not> candidate 3 5 0 w) \<and> \<not> candidate 3 5 0 1 \<and>
   optimizeWindowSize 3 5 0 = 1"
  using optimizeWindowSize_total[of 3 5 0] no_candidate_3_5_0 by simp

section \<open>The position table\<close>

definition slice :: "int \<Rightarrow> rat \<Rightarrow> rat \<Rightarrow> int \<Rightarrow> int \<times> position" where
  "slice totalImages spaceBetweenSlices sliceThickness i =
     (i, \<lparr>rel_center_mm = rat_of_int (totalImages - i) * spaceBetweenSlices,
          pos_thickness_mm = sliceThickness\<rparr>)"

lemma getSlicePositions_loop_eq:
  "0 \<le> i \<Longrightarrow>
   getSlicePositions_loop N sp th i acc = map (slice N sp th) [1..i] @ acc"
proof (induction N sp th i acc rule: getSlicePositions_loop.induct)
  case (1 N sp th i acc)
  show ?case
  proof (cases "0 < i")
    case True
    have "[1..i] = [1..i - 1] @ [i]" using True by (simp add: upto_rec2)
    then show ?thesis
      using "1.IH"[OF True] True
      by (subst getSlicePositions_loop.simps) (simp add: slice_def)
  next
    case False
    then have "i = 0" using "1.prems" by simp
    then show ?thesis by (subst getSlicePositions_loop.simps) simp
  qed
qed

lemma getSlicePositions_loop_neg:
  "i \<le> 0 \<Longrightarrow> getSlicePositions_loop N sp th i acc = acc"
  by (subst getSlicePositions_loop.simps) simp

lemma getSlicePositions_eq:
  "getSlicePositions N L th = map (slice N (L / rat_of_int (N - 1)) th) [1..N]"
proof (cases "0 \<le> N")
  case True
  then show ?thesis by (simp add: getSlicePositions_def getSlicePositions_loop_eq)
next
  case False
  then show ?thesis by (simp add: getSlicePositions_def getSlicePositions_loop_neg)
qed

lemma keys_getSlicePositions: "map fst (getSlicePositions N L th) = [1..N]"
  by (simp add: getSlicePositions_eq slice_def comp_def)

lemma set_keys_getSlicePositions:
  "fst ` set (getSlicePositions N L th) = {1..N}"
proof -
  have "fst ` set (getSlicePositions N L th) = set (map fst (getSlicePositions N L th))" by simp
  also have "\<dots> = {1..N}" by (simp only: keys_getSlicePositions) simp
  finally show ?thesis .
qed

lemma map_of_map_key:
  "map_of (map (\<lambda>i. (i, f i)) xs) i = (if i \<in> set xs then Some (f i) else None)"
  by (induction xs) auto

lemma map_of_getSlicePositions:
  "map_of (getSlicePositions N L th) i =
     (if 1 \<le> i \<and> i \<le> N then Some (snd (slice N (L / rat_of_int (N - 1)) th i)) else None)"
proof -
  have "slice N (L / rat_of_int (N - 1)) th =
        (\<lambda>i. (i, snd (slice N (L / rat_of_int (N - 1)) th i)))"
    by (rule ext) (simp add: slice_def)
  then have "getSlicePositions N L th =
      map (\<lambda>i. (i, snd (slice N (L / rat_of_int (N - 1)) th i))) [1..N]"
    by (simp only: getSlicePositions_eq)
  then show ?thesis by (simp only: map_of_map_key) simp
qed

text \<open>
  Claim C8, as amended. \<^verbatim>\<open>getSlicePositions\<close> checks nothing and has no failing branch: for
  every item count other than 1, every total length and every slice thickness (zero and
  negative ones included) it returns the table whose keys are \<open>1, \<dots>, totalImages\<close> in
  order (the empty table when \<open>totalImages \<le> 0\<close>), where entry \<open>i\<close> has the center
  \<open>(totalImages - i) * totalLength / (totalImages - 1)\<close> and the given thickness.
\<close>

theorem getSlicePositions_no_validation:
  assumes "totalImages \<noteq> 1"
  shows "map fst (getSlicePositions totalImages totalLength sliceThickness) = [1..totalImages] \<and>
         length (getSlicePositions totalImages totalLength sliceThickness) = nat totalImages \<and>
         (\<forall>i. 1 \<le> i \<and> i \<le> totalImages \<longrightarrow>
            map_of (getSlicePositions totalImages totalLength sliceThickness) i =
              Some \<lparr>rel_center_mm =
                      rat_of_int (totalImages - i) * (totalLength / rat_of_int (totalImages - 1)),
                    pos_thickness_mm = sliceThickness\<rparr>)"
proof -
  have "length (getSlicePositions totalImages totalLength sliceThickness) = length [1..totalImages]"
    by (simp add: getSlicePositions_eq)
  then show ?thesis
    by (simp add: keys_getSlicePositions map_of_getSlicePositions slice_def)
qed

theorem getSlicePositions_no_error_counterexample:
  "getSlicePositions 3 (-6) 1 =
     [(1, \<lparr>rel_center_mm = -6, pos_thickness_mm = 1\<rparr>),
      (2, \<lparr>rel_center_mm = -3, pos_thickness_mm = 1\<rparr>),
      (3, \<lparr>rel_center_mm = 0, pos_thickness_mm = 1\<rparr>)] \<and>
   getSlicePositions 2 0 0 =
     [(1, \<lparr>rel_center_mm = 0, pos_thickness_mm = 0\<rparr>),
      (2, \<lparr>rel_center_mm = 0, pos_thickness_mm = 0\<rparr>)] \<and>
   getSlicePositions 0 5 1 = []"
  by code_simp

theorem getSlicePositions_no_validation_witness:
  "(2::int) \<noteq> 1 \<and> map fst (getSlicePositions 2 (-4) 0) = [1, 2] \<and>
   length (getSlicePositions 2 (-4) 0) = 2 \<and>
   map_of (getSlicePositions 2 (-4) 0) 1 = Some \<lparr>rel_center_mm = -4, pos_thickness_mm = 0\<rparr>"
proof -
  note t = getSlicePositions_no_validation[of 2 "-4" 0]
  have "[1..2::int] = [1, 2]" by code_simp
  moreover from t have "map_of (getSlicePositions 2 (-4) 0) 1 =
      Some \<lparr>rel_center_mm = rat_of_int (2 - 1) * (-4 / rat_of_int (2 - 1)), pos_thickness_mm = 0\<rparr>"
    by simp
  ultimately show ?thesis using t by simp
qed

text \<open>
  Claim C9, as amended. For \<open>totalImages \<ge> 2\<close> and \<open>totalLength > 0\<close> the positions are evenly
  spaced, neighbours being \<open>totalLength / (totalImages - 1)\<close> apart, and the center offset
  strictly decreases with the index: the position at index \<open>i + 1\<close> has a smaller center
  offset than the position at index \<open>i\<close>.
\<close>

theorem getSlicePositions_spacing:
  assumes "2 \<le> totalImages" "0 < totalLength" "1 \<le> i" "i < totalImages"
  shows "\<exists>p q. map_of (getSlicePositions totalImages totalLength sliceThickness) i = Some p \<and>
           map_of (getSlicePositions totalImages totalLength sliceThickness) (i + 1) = Some q \<and>
           rel_center_mm p - rel_center_mm q = totalLength / rat_of_int (totalImages - 1) \<and>
           rel_center_mm q < rel_center_mm p"
proof -
  define s where "s = totalLength / rat_of_int (totalImages - 1)"
  define p where "p = snd (slice totalImages s sliceThickness i)"
  define q where "q = snd (slice totalImages s sliceThickness (i + 1))"
  have pos: "0 < s" using assms(1,2) by (simp add: s_def)
  have p: "map_of (getSlicePositions totalImages totalLength sliceThickness) i = Some p"
    using assms by (simp add: map_of_getSlicePositions p_def s_def)
  have q: "map_of (getSlicePositions totalImages totalLength sliceThickness) (i + 1) = Some q"
    using assms by (simp add: map_of_getSlicePositions q_def s_def)
  have "rat_of_int (totalImages - i) = rat_of_int (totalImages - (i + 1)) + 1" by simp
  then have "rat_of_int (totalImages - i) * s - rat_of_int (totalImages - (i + 1)) * s = s"
    by (simp only: distrib_right)
  then have d: "rel_center_mm p - rel_center_mm q = s"
    by (simp add: p_def q_def slice_def)
  then have "rel_center_mm q < rel_center_mm p" using pos by linarith
  with p q d show ?thesis unfolding s_def by blast
qed

theorem centers_increasing_counterexample:
  "map_of (getSlicePositions 3 2 1) 1 = Some \<lparr>rel_center_mm = 2, pos_thickness_mm = 1\<rparr> \<and>
   map_of (getSlicePositions 3 2 1) 2 = Some \<lparr>rel_center_mm = 1, pos_thickness_mm = 1\<rparr> \<and>
   \<not> (\<forall>i p q. map_of (getSlicePositions 3 2 1) i = Some p \<and>
                 map_of (getSlicePositions 3 2 1) (i + 1) = Some q \<longrightarrow>
                 rel_center_mm p < rel_center_mm q)"
proof -
  have p: "map_of (getSlicePositions 3 2 1) 1 = Some \<lparr>rel_center_mm = 2, pos_thickness_mm = 1\<rparr>"
    and q: "map_of (getSlicePositions 3 2 1) (1 + 1)
              = Some \<lparr>rel_center_mm = 1, pos_thickness_mm = 1\<rparr>"
    by code_simp+
  have "\<not> (\<forall>i p q. map_of (getSlicePositions 3 2 1) i = Some p \<and>
                 map_of (getSlicePositions 3 2 1) (i + 1) = Some q \<longrightarrow>
                 rel_center_mm p < rel_center_mm q)"
  proof
    assume "\<forall>i p q. map_of (getSlicePositions 3 2 1) i = Some p \<and>
                 map_of (getSlicePositions 3 2 1) (i + 1) = Some q \<longrightarrow>
                 rel_center_mm p < rel_center_mm q"
    then have "rel_center_mm \<lparr>rel_center_mm = 2, pos_thickness_mm = 1\<rparr>
        < rel_center_mm \<lparr>rel_center_mm = 1, pos_thickness_mm = 1\<rparr>"
      using p q by blast
    then show False by simp
  qed
  then show ?thesis using p q by simp
qed

theorem getSlicePositions_spacing_witness:
  "(2::int) \<le> 3 \<and> (0::rat) < 2 \<and> (1::int) \<le> 1 \<and> (1::int) < 3 \<and>
   (\<exists>p q. map_of (getSlicePositions 3 2 1) 1 = Some p \<and>
          map_of (getSlicePositions 3 2 1) (1 + 1) = Some q \<and>
          rel_center_mm p - rel_center_mm q = 2 / rat_of_int (3 - 1) \<and>
          rel_center_mm q < rel_center_mm p)"
  using getSlicePositions_spacing[of 3 2 1 1] by simp

section \<open>Invariants of the greedy matcher\<close>

lemma make_entry_Inr:
  assumes "make_entry sp s e e1 c n e2 d = Inr w"
  shows "start_img (window w) = s" "end_img (window w) = e" "win_error (window w) = e1"
    "win_coverage_mm (window w) = c" "step_img (step w) = n" "step_error (step w) = e2"
    "step_distance_mm (step w) = d"
    "\<exists>ps. map_of sp s = Some ps \<and> start_mm (window w) = rel_center_mm ps"
    "\<exists>pn. map_of sp n = Some pn"
  using assms by (auto simp: make_entry_def Let_def split: option.splits)

lemma get_windows_body_ContinueD:
  assumes "get_windows_body sp x d n ws = Continue n' ws'"
  obtains e e1 c e2 c2 w where
    "get_asdf sp n (fst x) = Inr (e, e1, c)" "\<not> js_less (Fin 1) e1"
    "get_asdf1 sp n (snd x) = Inr (n', e2, c2)"
    "make_entry sp n e e1 c n' e2 d = Inr w" "ws' = ws @ [w]"
  using assms
  by (auto simp: get_windows_body_def Let_def split: sum.splits if_splits prod.splits)

lemma get_windows_body_BrokeD:
  assumes "get_windows_body sp x d n ws = Broke ws'"
  obtains e e1 c where "ws' = ws" "get_asdf sp n (fst x) = Inr (e, e1, c)" "js_less (Fin 1) e1"
  using assms
  by (auto simp: get_windows_body_def Let_def split: sum.splits if_splits prod.splits)

lemma get_windows_loop_invariant:
  assumes "get_windows_loop sp x d n ws = Inr res" and "P n ws"
    and "\<And>n ws n' ws'. P n ws \<Longrightarrow> get_windows_body sp x d n ws = Continue n' ws' \<Longrightarrow> P n' ws'"
  shows "\<exists>m. P m res \<and> get_windows_body sp x d m res = Broke res"
  using assms
proof (induction sp x d n ws rule: get_windows_loop.induct)
  case (1 sp x d n ws)
  show ?case
  proof (cases "get_windows_body sp x d n ws")
    case (Threw err)
    then show ?thesis using "1.prems"(1) by (simp add: get_windows_loop.simps)
  next
    case (Broke ws')
    then have "res = ws'" using "1.prems"(1) by (simp add: get_windows_loop.simps)
    moreover have "ws' = ws" using Broke by (rule get_windows_body_BrokeD)
    ultimately show ?thesis using "1.prems"(2) Broke by auto
  next
    case (Continue n' ws')
    then have "get_windows_loop sp x d n' ws' = Inr res"
      using "1.prems"(1) by (simp add: get_windows_loop.simps)
    moreover have "P n' ws'" using "1.prems"(3)[OF "1.prems"(2) Continue] .
    ultimately show ?thesis using "1.IH"[OF Continue] "1.prems"(3) by blast
  qed
qed

lemma get_windows_InrD:
  assumes "get_windows sp x = Inr res"
  obtains p ps e e1 c n e2 d w where
    "sp = p # ps"
    "get_asdf sp (fold min (map fst ps) (fst p)) (fst x) = Inr (e, e1, c)"
    "get_asdf1 sp (fold min (map fst ps) (fst p)) (snd x) = Inr (n, e2, d)"
    "make_entry sp (fold min (map fst ps) (fst p)) e e1 c n e2 d = Inr w"
    "get_windows_loop sp x d n [w] = Inr res"
  using assms
  by (auto simp: get_windows_def Let_def split: list.splits sum.splits prod.splits)

lemma future_key:
  assumes "k \<in> fst ` set (get_future_positions sp s)"
  shows "s < k" "k \<in> fst ` set sp"
  using assms by (auto simp: get_future_positions_def)

lemma make_entry_key:
  assumes "make_entry sp s e e1 c n e2 d = Inr w"
  shows "s \<in> fst ` set sp"
proof -
  from make_entry_Inr(8)[OF assms] obtain ps where "map_of sp s = Some ps" by blast
  then have "(s, ps) \<in> set sp" by (rule map_of_SomeD)
  then show ?thesis by force
qed

text \<open>
  The error a span match returns is a minimum: no future position has a smaller error.
\<close>

lemma js_less_irrefl: "\<not> js_less a a"
  by (cases a) simp_all

lemma js_less_trans: "js_less a b \<Longrightarrow> js_less b c \<Longrightarrow> js_less a c"
  by (cases a; cases b; cases c) simp_all

lemma foldl_min_least:
  assumes "\<forall>y \<in> set seen. \<not> js_less (fst (snd y)) (fst (snd m))"
  shows "\<forall>y \<in> set seen \<union> set es.
           \<not> js_less (fst (snd y))
               (fst (snd (foldl (\<lambda>min curr. if js_less (fst (snd curr)) (fst (snd min))
                                            then curr else min) m es)))"
  using assms
proof (induction es arbitrary: m seen)
  case Nil
  then show ?case by simp
next
  case (Cons x es)
  let ?m' = "if js_less (fst (snd x)) (fst (snd m)) then x else m"
  have "\<forall>y \<in> set (x # seen). \<not> js_less (fst (snd y)) (fst (snd ?m'))"
  proof (cases "js_less (fst (snd x)) (fst (snd m))")
    case True
    then show ?thesis using Cons.prems js_less_trans js_less_irrefl by auto
  next
    case False
    then show ?thesis using Cons.prems by auto
  qed
  from Cons.IH[OF this] show ?case by simp
qed

lemma reduce_min_least:
  assumes "reduce_min errors = Inr r"
  shows "\<forall>y \<in> set errors. \<not> js_less (fst (snd y)) (fst (snd r))"
proof (cases errors)
  case Nil
  then show ?thesis by simp
next
  case (Cons e es)
  have "\<forall>y \<in> set [e]. \<not> js_less (fst (snd y)) (fst (snd e))" by (simp add: js_less_irrefl)
  from foldl_min_least[OF this, of es] show ?thesis using assms Cons
    by (simp add: reduce_min_def)
qed

lemma get_asdf_minimal:
  assumes "get_asdf positions start_index target_mm = Inr (k, e, c)"
  shows "\<exists>start. map_of positions start_index = Some start \<and>
           (\<forall>(key, pos) \<in> set (get_future_positions positions start_index).
              \<not> js_less (rel_error (coverage_mm start (Some pos)) target_mm) e)"
proof -
  from assms obtain start where s: "map_of positions start_index = Some start"
    and r: "reduce_min (map (\<lambda>(key, c). (key, rel_error c target_mm, c))
       (map (\<lambda>(key, pos). (key, coverage_mm start (Some pos)))
          (get_future_positions positions start_index))) = Inr (k, e, c)"
    by (auto simp: get_asdf_def Let_def split: option.splits)
  from reduce_min_least[OF r] have
    "\<forall>(key, pos) \<in> set (get_future_positions positions start_index).
        \<not> js_less (rel_error (coverage_mm start (Some pos)) target_mm) e"
    by (auto simp: case_prod_beta)
  with s show ?thesis by blast
qed

text \<open>
  An entry is span-matched when its end index, error and span are the span match of its
  start.
\<close>

definition span_matched :: "positions \<Rightarrow> rat \<times> rat \<Rightarrow> entry \<Rightarrow> bool" where
  "span_matched sp x w \<longleftrightarrow>
     get_asdf sp (start_img (window w)) (fst x) =
       Inr (end_img (window w), win_error (window w), win_coverage_mm (window w))"

lemma make_entry_span_matched:
  assumes "get_asdf sp s (fst x) = Inr (e, e1, c)" "make_entry sp s e e1 c n e2 d = Inr w"
  shows "span_matched sp x w"
  using assms(1) make_entry_Inr(1-4)[OF assms(2)] by (simp add: span_matched_def)

text \<open>
  Claim C2, as amended. When \<^verbatim>\<open>get_windows\<close> returns a window sequence, the sequence is not
  empty: the first window is emitted without any test. Every window records the span match
  of its start (end index, minimum relative error and span, as \<^verbatim>\<open>get_asdf\<close> returns them),
  and every window after the first was emitted with a minimum error that does not exceed
  the tolerance \<^verbatim>\<open>1\<close> (percent).
\<close>

theorem get_windows_tolerance:
  assumes "get_windows slicePositions x = Inr ws"
  shows "ws \<noteq> [] \<and>
         (\<forall>w \<in> set ws. span_matched slicePositions x w) \<and>
         (\<forall>w \<in> set (tl ws). \<not> js_less (Fin 1) (win_error (window w)))"
proof -
  obtain p ps e e1 c n e2 d w where
    "slicePositions = p # ps"
    and first1: "get_asdf slicePositions (fold min (map fst ps) (fst p)) (fst x) = Inr (e, e1, c)"
    and "get_asdf1 slicePositions (fold min (map fst ps) (fst p)) (snd x) = Inr (n, e2, d)"
    and first2: "make_entry slicePositions (fold min (map fst ps) (fst p)) e e1 c n e2 d = Inr w"
    and loop: "get_windows_loop slicePositions x d n [w] = Inr ws"
    by (rule get_windows_InrD[OF assms])
  define P where "P = (\<lambda>(m::int) vs. vs \<noteq> [] \<and>
         (\<forall>w \<in> set vs. span_matched slicePositions x w) \<and>
         (\<forall>w \<in> set (tl vs). \<not> js_less (Fin 1) (win_error (window w))))"
  have init: "P n [w]"
    using make_entry_span_matched[OF first1 first2] by (simp add: P_def)
  have step: "P m' vs'"
    if inv: "P m vs" and body: "get_windows_body slicePositions x d m vs = Continue m' vs'"
    for m vs m' vs'
  proof -
    obtain e e1 c e2 c2 v where
      b: "get_asdf slicePositions m (fst x) = Inr (e, e1, c)" "\<not> js_less (Fin 1) e1"
        "get_asdf1 slicePositions m (snd x) = Inr (m', e2, c2)"
        "make_entry slicePositions m e e1 c m' e2 d = Inr v" "vs' = vs @ [v]"
      by (rule get_windows_body_ContinueD[OF body])
    have "span_matched slicePositions x v" using b(1,4) by (rule make_entry_span_matched)
    moreover have "win_error (window v) = e1" using b(4) by (rule make_entry_Inr)
    moreover have "tl (vs @ [v]) = tl vs @ [v]" using inv by (simp add: P_def)
    ultimately show ?thesis using inv b(2,5) by (auto simp: P_def)
  qed
  have "\<exists>m. P m ws \<and> get_windows_body slicePositions x d m ws = Broke ws"
    using loop init step by (rule get_windows_loop_invariant[where P = P])
  then obtain m where "P m ws" by blast
  then show ?thesis unfolding P_def by simp
qed

lemma get_windows_8_7_1:
  "get_windows (getSlicePositions 8 7 1) (3, 2) =
   Inr [\<lparr>window =
           \<lparr>start_img = 1, start_idx = 0, start_mm = 7, end_img = 3,
              end_idx = 2, end_mm = 5, win_error = Fin 0, win_coverage_mm = 3,
              coverage_imgs = 3, center_idx = 2, center_mm = 6\<rparr>,
         step =
           \<lparr>step_img = 3, step_idx = 2, step_mm = None, step_error = Fin 0,
              step_distance_mm = 2, step_distance_imgs = 3\<rparr>\<rparr>,
        \<lparr>window =
           \<lparr>start_img = 3, start_idx = 2, start_mm = 5, end_img = 5,
              end_idx = 4, end_mm = 3, win_error = Fin 0, win_coverage_mm = 3,
              coverage_imgs = 3, center_idx = 4, center_mm = 4\<rparr>,
         step =
           \<lparr>step_img = 5, step_idx = 4, step_mm = None, step_error = Fin 0,
              step_distance_mm = 2, step_distance_imgs = 3\<rparr>\<rparr>,
        \<lparr>window =
           \<lparr>start_img = 5, start_idx = 4, start_mm = 3, end_img = 7,
              end_idx = 6, end_mm = 1, win_error = Fin 0, win_coverage_mm = 3,
              coverage_imgs = 3, center_idx = 6, center_mm = 2\<rparr>,
         step =
           \<lparr>step_img = 7, step_idx = 6, step_mm = None, step_error = Fin 0,
              step_distance_mm = 2, step_distance_imgs = 3\<rparr>\<rparr>]"
  by code_simp

theorem get_windows_tolerance_witness:
  "\<exists>ws. get_windows (getSlicePositions 8 7 1) (3, 2) = Inr ws \<and> length ws = 3 \<and>
     span_matched (getSlicePositions 8 7 1) (3, 2) (hd ws) \<and>
     \<not> js_less (Fin 1) (win_error (window (last ws)))"
  using get_windows_tolerance[OF get_windows_8_7_1] get_windows_8_7_1 by simp

theorem get_windows_first_window_counterexample:
  "get_windows (getSlicePositions 3 2 1) (100, 1) =
     Inr [\<lparr>window =
             \<lparr>start_img = 1, start_idx = 0, start_mm = 2, end_img = 3,
                end_idx = 2, end_mm = 0, win_error = Fin 97,
                win_coverage_mm = 3, coverage_imgs = 3, center_idx = 2,
                center_mm = 1\<rparr>,
           step =
             \<lparr>step_img = 2, step_idx = 1, step_mm = None, step_error = Fin 0,
                step_distance_mm = 1, step_distance_imgs = 2\<rparr>\<rparr>] \<and>
   js_less (Fin 1) (Fin 97) \<and>
   get_windows (getSlicePositions 2 1 1) (100, 1) = Inl TypeError"
  by code_simp

section \<open>Termination of the greedy matcher\<close>

lemma get_windows_fuel_enough:
  "length (get_future_positions sp n) < fuel \<Longrightarrow>
   get_windows_fuel fuel sp x d n ws = Some (get_windows_loop sp x d n ws)"
proof (induction fuel arbitrary: n ws)
  case 0
  then show ?case by simp
next
  case (Suc fuel)
  show ?case
  proof (cases "get_windows_body sp x d n ws")
    case (Threw err)
    then show ?thesis by (simp add: get_windows_loop.simps)
  next
    case (Broke ws')
    then show ?thesis by (simp add: get_windows_loop.simps)
  next
    case (Continue n' ws')
    have "length (get_future_positions sp n') < length (get_future_positions sp n)"
      using Continue by (intro future_shrinks get_windows_body_Continue)
    then have "length (get_future_positions sp n') < fuel" using Suc.prems by simp
    then have "get_windows_fuel fuel sp x d n' ws' = Some (get_windows_loop sp x d n' ws')"
      by (rule Suc.IH)
    then show ?thesis using Continue by (simp add: get_windows_loop.simps)
  qed
qed

lemma get_asdf1_start_key:
  assumes "get_asdf1 sp s t = Inr r"
  shows "s \<in> fst ` set sp"
proof -
  from assms obtain start where "map_of sp s = Some start"
    by (auto simp: get_asdf1_def Let_def split: option.splits)
  then have "(s, start) \<in> set sp" by (rule map_of_SomeD)
  then show ?thesis by force
qed

lemma future_less_table:
  assumes "s \<in> fst ` set sp"
  shows "length (get_future_positions sp s) < length sp"
proof -
  from assms obtain pos where "(s, pos) \<in> set sp" by auto
  then show ?thesis unfolding get_future_positions_def
    by (intro length_filter_less[where x = "(s, pos)"]) simp_all
qed

lemma get_windows_within_enough:
  assumes "sp \<noteq> []" "length sp \<le> fuel"
  shows "get_windows_within fuel sp x = Some (get_windows sp x)"
proof -
  obtain p ps where sp: "sp = p # ps" using assms(1) by (cases sp) auto
  obtain fuel' where fuel: "fuel = Suc fuel'" using assms by (cases fuel) auto
  define s where "s = fold min (map fst ps) (fst p)"
  have loop: "get_windows_fuel fuel' sp x d n [w] = Some (get_windows_loop sp x d n [w])"
    if "get_asdf1 sp s (snd x) = Inr (n, e2, d)" for n e2 d w
  proof -
    have "length (get_future_positions sp n) < length (get_future_positions sp s)"
      using that by (intro future_shrinks get_asdf1_future)
    moreover have "length (get_future_positions sp s) < length sp"
      using that by (intro future_less_table get_asdf1_start_key)
    ultimately have "length (get_future_positions sp n) < fuel'" using assms(2) fuel by simp
    then show ?thesis by (rule get_windows_fuel_enough)
  qed
  show ?thesis
    unfolding get_windows_within_def get_windows_def fuel
    by (simp add: sp s_def[symmetric] Let_def loop[unfolded sp]
        split: sum.splits prod.splits)
qed

text \<open>
  Claim C3. For every position table and every target pair, a pass of the loop body that
  continues moves the window start to a strictly larger index, whatever the step target
  is; and the generator finishes within as many window-generation steps as the table has
  entries: with that much fuel (the first window and each pass of the loop cost one unit)
  the bounded generator returns what \<^verbatim>\<open>get_windows\<close> returns, a window sequence or the
  \<^verbatim>\<open>TypeError\<close> raised once the start reaches the last position. For the table of
  \<^verbatim>\<open>getSlicePositions\<close> the bound is \<open>totalImages\<close>.
\<close>

theorem get_windows_terminates:
  "(get_windows_body slicePositions x d next_window_start_img windows
      = Continue next_window_start_img' windows' \<longrightarrow>
        next_window_start_img < next_window_start_img') \<and>
   (slicePositions \<noteq> [] \<longrightarrow>
      get_windows_within (length slicePositions) slicePositions x
        = Some (get_windows slicePositions x)) \<and>
   (1 \<le> totalImages \<longrightarrow>
      get_windows_within (nat totalImages)
          (getSlicePositions totalImages totalLength sliceThickness) x
        = Some (get_windows (getSlicePositions totalImages totalLength sliceThickness) x))"
proof (intro conjI impI)
  assume "get_windows_body slicePositions x d next_window_start_img windows
      = Continue next_window_start_img' windows'"
  then have "next_window_start_img'
      \<in> fst ` set (get_future_positions slicePositions next_window_start_img)"
    by (rule get_windows_body_Continue)
  then show "next_window_start_img < next_window_start_img'" by (rule future_key)
next
  assume "slicePositions \<noteq> []"
  then show "get_windows_within (length slicePositions) slicePositions x
        = Some (get_windows slicePositions x)"
    by (intro get_windows_within_enough) simp_all
next
  assume n: "1 \<le> totalImages"
  have len: "length (getSlicePositions totalImages totalLength sliceThickness) = nat totalImages"
    by (simp add: getSlicePositions_eq)
  then have "getSlicePositions totalImages totalLength sliceThickness \<noteq> []" using n by auto
  then show "get_windows_within (nat totalImages)
          (getSlicePositions totalImages totalLength sliceThickness) x
        = Some (get_windows (getSlicePositions totalImages totalLength sliceThickness) x)"
    using len by (intro get_windows_within_enough) simp_all
qed

text \<open>
  A step target of 0 matches every distance equally badly; the step match then takes the
  next position, and the start still advances.
\<close>

lemma get_windows_body_zero_step:
  "get_windows_body (getSlicePositions 8 7 1) (3, 0) 1 2 [] =
   Continue 3
     [\<lparr>window =
         \<lparr>start_img = 2, start_idx = 1, start_mm = 6, end_img = 4, end_idx = 3,
            end_mm = 4, win_error = Fin 0, win_coverage_mm = 3,
            coverage_imgs = 3, center_idx = 3, center_mm = 5\<rparr>,
       step =
         \<lparr>step_img = 3, step_idx = 2, step_mm = None, step_error = PInf,
            step_distance_mm = 1, step_distance_imgs = 2\<rparr>\<rparr>]"
  by code_simp

lemma getSlicePositions_8_7_1_nonempty: "getSlicePositions 8 7 1 \<noteq> []"
  by code_simp

theorem get_windows_terminates_witness:
  "(2::int) < 3 \<and>
   getSlicePositions 8 7 1 \<noteq> [] \<and>
   get_windows_within (length (getSlicePositions 8 7 1)) (getSlicePositions 8 7 1) (3, 0)
     = Some (get_windows (getSlicePositions 8 7 1) (3, 0)) \<and>
   (1::int) \<le> 8 \<and>
   get_windows_within (nat 8) (getSlicePositions 8 7 1) (3, 0)
     = Some (get_windows (getSlicePositions 8 7 1) (3, 0))"
  using get_windows_terminates[where slicePositions = "getSlicePositions 8 7 1" and x = "(3, 0)"
      and d = 1 and next_window_start_img = 2 and windows = "[]" and totalImages = 8
      and totalLength = 7 and sliceThickness = 1]
    get_windows_body_zero_step getSlicePositions_8_7_1_nonempty
  by simp

section \<open>Bounds and order of the windows\<close>

definition in_order :: "positions \<Rightarrow> int \<Rightarrow> entry list \<Rightarrow> bool" where
  "in_order sp n vs \<longleftrightarrow>
     (\<forall>w \<in> set vs. start_img (window w) < n \<and> start_img (window w) < end_img (window w) \<and>
        start_img (window w) \<in> fst ` set sp \<and> end_img (window w) \<in> fst ` set sp) \<and>
     sorted_wrt (<) (map (\<lambda>w. start_img (window w)) vs)"

lemma in_order_snoc:
  assumes "in_order sp m vs"
    and "get_asdf sp m t = Inr (e, e1, c)" "get_asdf1 sp m u = Inr (m', e2, c2)"
    and "make_entry sp m e e1 c m' e2 d = Inr v"
  shows "in_order sp m' (vs @ [v])"
proof -
  note k = future_key[OF get_asdf_future[OF assms(2)]]
  note k' = future_key[OF get_asdf1_future[OF assms(3)]]
  note f = make_entry_Inr(1,2)[OF assms(4)] make_entry_key[OF assms(4)]
  have old: "\<forall>w \<in> set vs. start_img (window w) < m" using assms(1) by (simp add: in_order_def)
  have "sorted_wrt (<) (map (\<lambda>w. start_img (window w)) (vs @ [v]))"
    using assms(1) old f(1) by (simp add: in_order_def sorted_wrt_append)
  moreover have "\<forall>w \<in> set (vs @ [v]). start_img (window w) < m' \<and>
      start_img (window w) < end_img (window w) \<and>
      start_img (window w) \<in> fst ` set sp \<and> end_img (window w) \<in> fst ` set sp"
  proof
    fix w assume "w \<in> set (vs @ [v])"
    then consider "w \<in> set vs" | "w = v" by auto
    then show "start_img (window w) < m' \<and> start_img (window w) < end_img (window w) \<and>
      start_img (window w) \<in> fst ` set sp \<and> end_img (window w) \<in> fst ` set sp"
    proof cases
      case 1
      then have "start_img (window w) < m \<and> start_img (window w) < end_img (window w) \<and>
        start_img (window w) \<in> fst ` set sp \<and> end_img (window w) \<in> fst ` set sp"
        using assms(1) unfolding in_order_def by blast
      then show ?thesis using k'(1) by simp
    next
      case 2
      then show ?thesis using k k' f by simp
    qed
  qed
  ultimately show ?thesis unfolding in_order_def by blast
qed

lemma get_windows_in_order:
  assumes "get_windows sp x = Inr ws"
  shows "\<exists>m. in_order sp m ws"
proof -
  obtain p ps e e1 c n e2 d w where
    "sp = p # ps"
    and first1: "get_asdf sp (fold min (map fst ps) (fst p)) (fst x) = Inr (e, e1, c)"
    and first1': "get_asdf1 sp (fold min (map fst ps) (fst p)) (snd x) = Inr (n, e2, d)"
    and first2: "make_entry sp (fold min (map fst ps) (fst p)) e e1 c n e2 d = Inr w"
    and loop: "get_windows_loop sp x d n [w] = Inr ws"
    by (rule get_windows_InrD[OF assms])
  have "in_order sp (fold min (map fst ps) (fst p)) []" by (simp add: in_order_def)
  then have init: "in_order sp n ([] @ [w])" using first1 first1' first2 by (rule in_order_snoc)
  have step: "in_order sp m' vs'"
    if inv: "in_order sp m vs" and body: "get_windows_body sp x d m vs = Continue m' vs'"
    for m vs m' vs'
  proof -
    obtain e e1 c e2 c2 v where
      b: "get_asdf sp m (fst x) = Inr (e, e1, c)" "\<not> js_less (Fin 1) e1"
        "get_asdf1 sp m (snd x) = Inr (m', e2, c2)"
        "make_entry sp m e e1 c m' e2 d = Inr v" "vs' = vs @ [v]"
      by (rule get_windows_body_ContinueD[OF body])
    show ?thesis unfolding b(5) using inv b(1,3,4) by (rule in_order_snoc)
  qed
  have "\<exists>m. in_order sp m ws \<and> get_windows_body sp x d m ws = Broke ws"
    using loop init[simplified] step by (rule get_windows_loop_invariant[where P = "in_order sp"])
  then show ?thesis by blast
qed

definition idx_ok :: "int \<Rightarrow> int \<Rightarrow> int \<Rightarrow> win list \<Rightarrow> bool" where
  "idx_ok totalImages stepSize i ws \<longleftrightarrow>
     (\<forall>w \<in> set ws. 0 \<le> win_start w \<and> win_start w \<le> win_end w \<and>
        win_end w \<le> totalImages - 1 \<and> win_start w < i * stepSize) \<and>
     sorted_wrt (<) (map win_start ws)"

lemma calculateWindows_loop_ok:
  assumes "1 \<le> windowSize" "1 \<le> stepSize" "0 \<le> i" "idx_ok totalImages stepSize i ws"
  shows "\<exists>j. idx_ok totalImages stepSize j
           (calculateWindows_loop totalImages numWindows windowSize stepSize sliceInterval i ws)"
  using assms
proof (induction totalImages numWindows windowSize stepSize sliceInterval i ws
    rule: calculateWindows_loop.induct)
  case (1 totalImages numWindows windowSize stepSize sliceInterval i ws)
  show ?case
  proof (cases "i < numWindows \<and> i * stepSize < totalImages")
    case False
    then have "calculateWindows_loop totalImages numWindows windowSize stepSize sliceInterval i ws
        = ws"
      by (subst calculateWindows_loop.simps) (auto simp: Let_def)
    then show ?thesis using "1.prems"(4) by auto
  next
    case True
    define w where "w = \<lparr>win_start = i * stepSize,
        win_end = min (i * stepSize + windowSize - 1) (totalImages - 1),
        win_center = rat_of_int (i * stepSize)
           + (rat_of_int (min windowSize (totalImages - i * stepSize)) - 1) / 2,
        win_centercm = (rat_of_int (i * stepSize)
           + (rat_of_int (min windowSize (totalImages - i * stepSize)) - 1) / 2) * sliceInterval\<rparr>"
    have eq: "calculateWindows_loop totalImages numWindows windowSize stepSize sliceInterval i ws
        = calculateWindows_loop totalImages numWindows windowSize stepSize sliceInterval (i + 1)
            (ws @ [w])"
      using True by (subst calculateWindows_loop.simps) (simp add: Let_def w_def)
    have i0: "0 \<le> i * stepSize" using "1.prems"(2,3) by simp
    have lt: "i * stepSize < (i + 1) * stepSize" using "1.prems"(2) by (simp add: algebra_simps)
    have wok: "0 \<le> win_start w \<and> win_start w \<le> win_end w \<and> win_end w \<le> totalImages - 1 \<and>
        win_start w < (i + 1) * stepSize"
      using i0 lt True "1.prems"(1) by (simp add: w_def)
    have old: "\<forall>v \<in> set ws. win_start v < i * stepSize" using "1.prems"(4) by (simp add: idx_ok_def)
    have "sorted_wrt (<) (map win_start (ws @ [w]))"
      using "1.prems"(4) old by (simp add: idx_ok_def sorted_wrt_append w_def)
    moreover have "\<forall>v \<in> set (ws @ [w]). 0 \<le> win_start v \<and> win_start v \<le> win_end v \<and>
        win_end v \<le> totalImages - 1 \<and> win_start v < (i + 1) * stepSize"
    proof
      fix v assume "v \<in> set (ws @ [w])"
      then consider "v \<in> set ws" | "v = w" by auto
      then show "0 \<le> win_start v \<and> win_start v \<le> win_end v \<and>
        win_end v \<le> totalImages - 1 \<and> win_start v < (i + 1) * stepSize"
      proof cases
        case 1
        then have "0 \<le> win_start v \<and> win_start v \<le> win_end v \<and>
          win_end v \<le> totalImages - 1 \<and> win_start v < i * stepSize"
          using "1.prems"(4) unfolding idx_ok_def by blast
        then show ?thesis using lt by simp
      next
        case 2
        then show ?thesis using wok by simp
      qed
    qed
    ultimately have ok: "idx_ok totalImages stepSize (i + 1) (ws @ [w])"
      unfolding idx_ok_def by blast
    have "\<exists>j. idx_ok totalImages stepSize j
           (calculateWindows_loop totalImages numWindows windowSize stepSize sliceInterval (i + 1)
              (ws @ [w]))"
      unfolding w_def
    proof (rule "1.IH"[OF _ refl refl _ refl refl "1.prems"(1,2) _ ok[unfolded w_def]])
      show "i < numWindows" using True by simp
      show "\<not> totalImages \<le> i * stepSize" using True by simp
      show "0 \<le> i + 1" using "1.prems"(3) by simp
    qed
    then show ?thesis by (simp only: eq)
  qed
qed

lemma stepSize_of_pos:
  assumes "1 \<le> w" "p < 100"
  shows "1 \<le> stepSize_of w p"
proof -
  define a where "a = w * p"
  have "w * p < w * 100" using assms by simp
  then have "a < w * 100" by (simp add: a_def)
  then have "a div 100 < w" by linarith
  then show ?thesis by (simp add: stepSize_of_def a_def)
qed

text \<open>
  Claim C6, as amended. In the index-based layout, for \<open>totalImages \<ge> 1\<close> and an overlap
  below 100 percent, every window satisfies \<open>0 \<le> start \<le> end \<le> totalImages - 1\<close> (the indices
  are 0-based) and the starts strictly increase. In the position-aware layout, every window
  of a returned sequence satisfies \<open>1 \<le> start_img \<le> end_img \<le> totalImages\<close> and the starts
  strictly increase.
\<close>

theorem windows_within_bounds_and_ordered:
  "(1 \<le> totalImages \<and> overlapPercent < 100 \<longrightarrow>
      (\<forall>w \<in> set (lay_windows (calculateWindows totalImages numWindows overlapPercent sliceInterval)).
          0 \<le> win_start w \<and> win_start w \<le> win_end w \<and> win_end w \<le> totalImages - 1) \<and>
      sorted_wrt (<) (map win_start
          (lay_windows (calculateWindows totalImages numWindows overlapPercent sliceInterval)))) \<and>
   (get_windows (getSlicePositions totalImages totalLength sliceThickness) x = Inr ws \<longrightarrow>
      (\<forall>w \<in> set ws. 1 \<le> start_img (window w) \<and> start_img (window w) \<le> end_img (window w) \<and>
          end_img (window w) \<le> totalImages) \<and>
      sorted_wrt (<) (map (\<lambda>w. start_img (window w)) ws))"
proof (intro conjI impI)
  assume a: "1 \<le> totalImages \<and> overlapPercent < 100"
  define windowSize where "windowSize = optimizeWindowSize totalImages numWindows overlapPercent"
  have ws: "1 \<le> windowSize"
    using optimizeWindowSize_range[of totalImages numWindows overlapPercent] a
    by (simp add: windowSize_def)
  have st: "1 \<le> stepSize_of windowSize overlapPercent" using ws a by (intro stepSize_of_pos) simp_all
  have eq: "lay_windows (calculateWindows totalImages numWindows overlapPercent sliceInterval) =
      calculateWindows_loop totalImages numWindows windowSize
        (stepSize_of windowSize overlapPercent) sliceInterval 0 []"
    by (simp add: calculateWindows_def Let_def windowSize_def stepSize_of_def)
  have "idx_ok totalImages (stepSize_of windowSize overlapPercent) 0 []" by (simp add: idx_ok_def)
  then obtain j where j: "idx_ok totalImages (stepSize_of windowSize overlapPercent) j
      (lay_windows (calculateWindows totalImages numWindows overlapPercent sliceInterval))"
    unfolding eq using calculateWindows_loop_ok[OF ws st, of 0] by blast
  show "\<forall>w \<in> set (lay_windows (calculateWindows totalImages numWindows overlapPercent sliceInterval)).
          0 \<le> win_start w \<and> win_start w \<le> win_end w \<and> win_end w \<le> totalImages - 1"
    using j unfolding idx_ok_def by blast
  show "sorted_wrt (<) (map win_start
          (lay_windows (calculateWindows totalImages numWindows overlapPercent sliceInterval)))"
    using j unfolding idx_ok_def by blast
next
  assume g: "get_windows (getSlicePositions totalImages totalLength sliceThickness) x = Inr ws"
  then obtain m where
    m: "in_order (getSlicePositions totalImages totalLength sliceThickness) m ws"
    using get_windows_in_order by blast
  show "\<forall>w \<in> set ws. 1 \<le> start_img (window w) \<and> start_img (window w) \<le> end_img (window w) \<and>
          end_img (window w) \<le> totalImages"
  proof
    fix w assume "w \<in> set ws"
    then have "start_img (window w) < end_img (window w) \<and>
        start_img (window w) \<in> {1..totalImages} \<and> end_img (window w) \<in> {1..totalImages}"
      using m unfolding in_order_def set_keys_getSlicePositions by blast
    then show "1 \<le> start_img (window w) \<and> start_img (window w) \<le> end_img (window w) \<and>
          end_img (window w) \<le> totalImages" by simp
  qed
  show "sorted_wrt (<) (map (\<lambda>w. start_img (window w)) ws)"
    using m unfolding in_order_def by blast
qed

lemma calculateWindows_10_2_0:
  "lay_windows (calculateWindows 10 2 0 1) =
     [\<lparr>win_start = 0, win_end = 4, win_center = 2, win_centercm = 2\<rparr>,
      \<lparr>win_start = 5, win_end = 9, win_center = 7, win_centercm = 7\<rparr>]"
  by code_simp

theorem windows_one_based_counterexample:
  "lay_windows (calculateWindows 10 2 0 1) =
     [\<lparr>win_start = 0, win_end = 4, win_center = 2, win_centercm = 2\<rparr>,
      \<lparr>win_start = 5, win_end = 9, win_center = 7, win_centercm = 7\<rparr>] \<and>
   \<not> 1 \<le> win_start (hd (lay_windows (calculateWindows 10 2 0 1)))"
  by (simp add: calculateWindows_10_2_0)

lemma calculateWindows_8_2_0:
  "lay_windows (calculateWindows 8 2 0 1) =
     [\<lparr>win_start = 0, win_end = 3, win_center = 3 / 2, win_centercm = 3 / 2\<rparr>,
      \<lparr>win_start = 4, win_end = 7, win_center = 11 / 2, win_centercm = 11 / 2\<rparr>]"
  by code_simp

theorem windows_within_bounds_and_ordered_witness:
  "(1::int) \<le> 8 \<and> (0::int) < 100 \<and>
   win_start (hd (lay_windows (calculateWindows 8 2 0 1))) = 0 \<and>
   sorted_wrt (<) (map win_start (lay_windows (calculateWindows 8 2 0 1))) \<and>
   (\<exists>ws. get_windows (getSlicePositions 8 7 1) (3, 2) = Inr ws \<and>
      1 \<le> start_img (window (hd ws)) \<and> end_img (window (last ws)) \<le> 8 \<and>
      sorted_wrt (<) (map (\<lambda>w. start_img (window w)) ws))"
proof -
  obtain ws where ws: "get_windows (getSlicePositions 8 7 1) (3, 2) = Inr ws" "ws \<noteq> []"
    using get_windows_8_7_1 by blast
  note t = windows_within_bounds_and_ordered[where totalImages = 8 and overlapPercent = 0
      and numWindows = 2 and sliceInterval = 1 and totalLength = 7 and sliceThickness = 1
      and x = "(3, 2)" and ws = ws]
  have a: "sorted_wrt (<) (map win_start (lay_windows (calculateWindows 8 2 0 1)))"
    using t by simp
  have b: "\<forall>w \<in> set ws. 1 \<le> start_img (window w) \<and> start_img (window w) \<le> end_img (window w) \<and>
          end_img (window w) \<le> 8"
    and c: "sorted_wrt (<) (map (\<lambda>w. start_img (window w)) ws)"
    using t ws(1) by simp_all
  have "hd ws \<in> set ws" "last ws \<in> set ws" using ws(2) by simp_all
  then have "1 \<le> start_img (window (hd ws))" "end_img (window (last ws)) \<le> 8"
    using b by blast+
  then show ?thesis using a c ws(1) by (auto simp: calculateWindows_8_2_0)
qed

section \<open>The step match on the evenly spaced table\<close>

text \<open>
  \<^verbatim>\<open>reduce\<close> with a strict comparison returns the first entry of least error: every entry
  before it has a strictly larger error.
\<close>

lemma foldl_first_min:
  fixes f :: "'a \<Rightarrow> rat" and h :: "'a \<Rightarrow> int \<times> jsnum \<times> rat"
  assumes h: "\<And>k. fst (snd (h k)) = Fin (f k)"
  shows "\<exists>pre k post. m # xs = pre @ k # post \<and>
           foldl (\<lambda>min curr. if js_less (fst (snd curr)) (fst (snd min)) then curr else min)
             (h m) (map h xs) = h k \<and>
           (\<forall>y \<in> set pre. f k < f y) \<and> (\<forall>y \<in> set (m # xs). f k \<le> f y)"
proof (induction xs arbitrary: m)
  case Nil
  show ?case by (rule exI[of _ "[]"], rule exI[of _ m], rule exI[of _ "[]"]) simp
next
  case (Cons x xs)
  let ?step = "\<lambda>min curr. if js_less (fst (snd curr)) (fst (snd min)) then curr else min"
  show ?case
  proof (cases "f x < f m")
    case True
    then have st: "?step (h m) (h x) = h x" by (simp add: h)
    from Cons.IH[of x] obtain pre k post where
      r: "x # xs = pre @ k # post" "foldl ?step (h x) (map h xs) = h k"
        "\<forall>y \<in> set pre. f k < f y" "\<forall>y \<in> set (x # xs). f k \<le> f y"
      by blast
    have kx: "f k \<le> f x" using r(4) by simp
    have "m # x # xs = (m # pre) @ k # post" using r(1) by simp
    moreover have "foldl ?step (h m) (map h (x # xs)) = h k" using st r(2) by simp
    moreover have "\<forall>y \<in> set (m # pre). f k < f y" using r(3) kx True by auto
    moreover have "\<forall>y \<in> set (m # x # xs). f k \<le> f y" using r(4) kx True by auto
    ultimately show ?thesis by blast
  next
    case False
    then have st: "?step (h m) (h x) = h m" by (simp add: h)
    from Cons.IH[of m] obtain pre k post where
      r: "m # xs = pre @ k # post" "foldl ?step (h m) (map h xs) = h k"
        "\<forall>y \<in> set pre. f k < f y" "\<forall>y \<in> set (m # xs). f k \<le> f y"
      by blast
    have km: "f k \<le> f m" using r(4) by simp
    have fold: "foldl ?step (h m) (map h (x # xs)) = h k" using st r(2) by simp
    have all: "\<forall>y \<in> set (m # x # xs). f k \<le> f y" using r(4) km False by auto
    show ?thesis
    proof (cases pre)
      case Nil
      then have "m # x # xs = [] @ k # (x # post)" using r(1) by simp
      then show ?thesis using fold all by (metis empty_iff empty_set)
    next
      case (Cons a pre')
      then have a: "a = m" and xs: "xs = pre' @ k # post" using r(1) by simp_all
      have "f k < f m" using r(3) Cons a by simp
      then have "\<forall>y \<in> set (m # x # pre'). f k < f y" using r(3) Cons False by auto
      moreover have "m # x # xs = (m # x # pre') @ k # post" using xs by simp
      ultimately show ?thesis using fold all by blast
    qed
  qed
qed

lemma foldl_keep_first:
  assumes "\<forall>y \<in> set es. \<not> js_less (fst (snd y)) (fst (snd e))"
  shows "foldl (\<lambda>min curr. if js_less (fst (snd curr)) (fst (snd min)) then curr else min) e es = e"
  using assms by (induction es) auto

lemma filter_upto_greater:
  "filter (\<lambda>k. s < k) [a..b] = [max a (s + 1)..b]"
proof (induction a b rule: upto.induct)
  case (1 i j)
  show ?case
  proof (cases "i \<le> j")
    case True
    then have u: "[i..j] = i # [i + 1..j]" by (simp add: upto_rec1)
    show ?thesis
    proof (cases "s < i")
      case True
      then have "max i (s + 1) = i" "max (i + 1) (s + 1) = i + 1" by simp_all
      then show ?thesis using "1.IH"[OF \<open>i \<le> j\<close>] u True by simp
    next
      case False
      then have "max i (s + 1) = s + 1" "max (i + 1) (s + 1) = s + 1" by simp_all
      then show ?thesis using "1.IH"[OF \<open>i \<le> j\<close>] u False by simp
    qed
  next
    case False
    then show ?thesis by simp
  qed
qed

lemma future_getSlicePositions:
  assumes "1 \<le> s"
  shows "get_future_positions (getSlicePositions N L th) s =
         map (slice N (L / rat_of_int (N - 1)) th) [s + 1..N]"
proof -
  have "filter (\<lambda>(key, pos). s < key) (map (slice N (L / rat_of_int (N - 1)) th) [1..N]) =
        map (slice N (L / rat_of_int (N - 1)) th) (filter (\<lambda>k. s < k) [1..N])"
    by (simp add: filter_map comp_def slice_def)
  moreover have "max 1 (s + 1) = s + 1" using assms by simp
  ultimately show ?thesis
    by (simp add: get_future_positions_def getSlicePositions_eq filter_upto_greater)
qed

lemma distance_slices:
  assumes "s < k"
  shows "distance_mm (snd (slice N sp th s)) (Some (snd (slice N sp th k))) =
         rat_of_int (k - s) * \<bar>sp\<bar>"
proof -
  have "rat_of_int (N - k) * sp - rat_of_int (N - s) * sp = - (rat_of_int (k - s) * sp)"
    by (simp add: algebra_simps)
  then have "\<bar>rat_of_int (N - k) * sp - rat_of_int (N - s) * sp\<bar> = \<bar>rat_of_int (k - s) * sp\<bar>"
    by simp
  also have "\<dots> = rat_of_int (k - s) * \<bar>sp\<bar>" using assms by (simp add: abs_mult)
  finally show ?thesis by (simp add: distance_mm_def slice_def)
qed

lemma get_asdf1_table:
  assumes "1 \<le> s" "s \<le> N"
  shows "get_asdf1 (getSlicePositions N L th) s t =
         reduce_min (map (\<lambda>k. (k, rel_error (rat_of_int (k - s) * \<bar>L / rat_of_int (N - 1)\<bar>) t,
                               rat_of_int (k - s) * \<bar>L / rat_of_int (N - 1)\<bar>)) [s + 1..N])"
proof -
  define sp where "sp = L / rat_of_int (N - 1)"
  define g where "g = (\<lambda>k. (k, rel_error (rat_of_int (k - s) * \<bar>sp\<bar>) t, rat_of_int (k - s) * \<bar>sp\<bar>))"
  define g' where "g' = (\<lambda>k. case (case slice N sp th k of
                   (key, pos) \<Rightarrow> (key, distance_mm (snd (slice N sp th s)) (Some pos))) of
             (key, c) \<Rightarrow> (key, rel_error c t, c))"
  have m: "map_of (getSlicePositions N L th) s = Some (snd (slice N sp th s))"
    using assms by (simp add: map_of_getSlicePositions sp_def)
  have f: "get_future_positions (getSlicePositions N L th) s = map (slice N sp th) [s + 1..N]"
    unfolding sp_def using assms(1) by (rule future_getSlicePositions)
  have "g' k = g k" if "k \<in> set [s + 1..N]" for k
  proof -
    have "s < k" using that by simp
    from distance_slices[OF this, of N sp th] show ?thesis
      by (simp add: slice_def g_def g'_def)
  qed
  then have e2: "map g' [s + 1..N] = map g [s + 1..N]" by (intro map_cong refl)
  have e1: "map (\<lambda>(key, c). (key, rel_error c t, c))
          (map (\<lambda>(key, pos). (key, distance_mm (snd (slice N sp th s)) (Some pos)))
             (map (slice N sp th) [s + 1..N])) = map g' [s + 1..N]"
    by (simp add: g'_def comp_def)
  have "get_asdf1 (getSlicePositions N L th) s t =
        reduce_min (map (\<lambda>(key, c). (key, rel_error c t, c))
          (map (\<lambda>(key, pos). (key, distance_mm (snd (slice N sp th s)) (Some pos)))
             (map (slice N sp th) [s + 1..N])))"
    by (simp only: get_asdf1_def Let_def m f option.case)
  then have "get_asdf1 (getSlicePositions N L th) s t = reduce_min (map g [s + 1..N])"
    by (simp only: e1 e2)
  then show ?thesis by (simp only: g_def sp_def)
qed

definition step_err :: "rat \<Rightarrow> rat \<Rightarrow> int \<Rightarrow> rat" where
  "step_err a t j = (\<bar>rat_of_int j * a - t\<bar> / t) * 100"

lemma abs_grows:
  fixes u a b :: rat
  assumes "0 \<le> a" "\<bar>u\<bar> \<le> \<bar>u + a\<bar>" "b = 0 \<or> 0 < a \<and> a \<le> b"
  shows "\<bar>u\<bar> \<le> \<bar>u + b\<bar>"
proof (cases "b = 0")
  case True
  then show ?thesis by simp
next
  case False
  then have "0 < a \<and> a \<le> b" using assms(3) by simp
  then show ?thesis using assms(2) by (simp add: abs_if split: if_splits)
qed

lemma step_err_unimodal:
  assumes a: "0 \<le> a" and t: "t \<noteq> 0" and j: "0 \<le> j" "j \<le> k"
    and up: "step_err a t j \<le> step_err a t (j + 1)"
  shows "step_err a t j \<le> step_err a t k"
proof -
  define u where "u = rat_of_int j * a - t"
  define b where "b = rat_of_int (k - j) * a"
  have u1: "rat_of_int (j + 1) * a - t = u + a" by (simp add: u_def algebra_simps)
  have uk: "rat_of_int k * a - t = u + b" by (simp add: u_def b_def algebra_simps)
  have b: "b = 0 \<or> 0 < a \<and> a \<le> b"
  proof (cases "k = j \<or> a = 0")
    case True then show ?thesis by (auto simp: b_def)
  next
    case False
    then have "1 \<le> rat_of_int (k - j)" using j(2) by simp
    then have "1 * a \<le> rat_of_int (k - j) * a" using a by (rule mult_right_mono)
    then show ?thesis using False a by (simp add: b_def)
  qed
  show ?thesis
  proof (cases "0 < t")
    case True
    then have ua: "\<bar>u\<bar> \<le> \<bar>u + a\<bar>"
      using up unfolding step_err_def u1 u_def[symmetric] by (simp add: divide_le_cancel)
    have "\<bar>u\<bar> \<le> \<bar>u + b\<bar>" using a ua b by (rule abs_grows)
    then show ?thesis unfolding step_err_def uk u_def[symmetric] using True
      by (simp add: divide_le_cancel)
  next
    case False
    then have neg: "t < 0" using t by simp
    have "0 \<le> rat_of_int j * a" using a j(1) by simp
    then have upos: "0 < u" using neg by (simp add: u_def)
    have "\<bar>u + a\<bar> \<le> \<bar>u\<bar>"
      using up neg unfolding step_err_def u1 u_def[symmetric] by (simp add: divide_le_cancel)
    then have "a = 0" using upos a by linarith
    then have "b = 0" by (simp add: b_def)
    then show ?thesis unfolding step_err_def uk u_def[symmetric] by simp
  qed
qed

lemma step_err_first_min_unique:
  assumes a: "0 \<le> a" and t: "t \<noteq> 0"
    and j: "1 \<le> j" "step_err a t j \<le> step_err a t (j + 1)"
      "\<And>i. 1 \<le> i \<Longrightarrow> i < j \<Longrightarrow> step_err a t j < step_err a t i"
    and j': "1 \<le> j'" "step_err a t j' \<le> step_err a t (j' + 1)"
      "\<And>i. 1 \<le> i \<Longrightarrow> i < j' \<Longrightarrow> step_err a t j' < step_err a t i"
  shows "j = j'"
proof (rule ccontr)
  assume "j \<noteq> j'"
  then consider "j < j'" | "j' < j" by linarith
  then show False
  proof cases
    case 1
    have "step_err a t j \<le> step_err a t j'"
      using a t _ _ j(2) by (rule step_err_unimodal) (use j(1) 1 in simp_all)
    moreover have "step_err a t j' < step_err a t j" using j(1) 1 by (rule j'(3))
    ultimately show False by simp
  next
    case 2
    have "step_err a t j' \<le> step_err a t j"
      using a t _ _ j'(2) by (rule step_err_unimodal) (use j'(1) 2 in simp_all)
    moreover have "step_err a t j < step_err a t j'" using j'(1) 2 by (rule j(3))
    ultimately show False by simp
  qed
qed

lemma js_less_nonfinite: "\<not> js_less PInf y" "\<not> js_less NaN y"
  by (cases y; simp)+

lemma rel_error_zero_target: "\<not> js_less (rel_error c 0) y"
  by (simp add: rel_error_def js_less_nonfinite)

lemma rel_error_step_err:
  "t \<noteq> 0 \<Longrightarrow> rel_error (rat_of_int j * a) t = Fin (step_err a t j)"
  by (simp add: rel_error_def step_err_def)

lemma upto_before:
  assumes "[lo..hi] = pre @ k # post" "lo \<le> y" "y < k"
  shows "y \<in> set pre"
proof -
  have "sorted (pre @ k # post)" using assms(1) sorted_upto[of lo hi] by simp
  then have "\<forall>z \<in> set post. k \<le> z" by (simp add: sorted_append)
  then have "y \<notin> set post" using assms(3) by auto
  moreover have "k \<in> set [lo..hi]" using assms(1) by simp
  then have "y \<in> set [lo..hi]" using assms(2,3) by simp
  ultimately show ?thesis using assms(1,3) by auto
qed

lemma step_match_char:
  assumes "reduce_min (map (\<lambda>k. (k, rel_error (rat_of_int (k - s) * a) t, rat_of_int (k - s) * a))
             [s + 1..N]) = Inr (n, e, c)"
  shows "s < n \<and> n \<le> N \<and> c = rat_of_int (n - s) * a \<and>
         (t = 0 \<longrightarrow> n = s + 1) \<and>
         (t \<noteq> 0 \<longrightarrow>
            (\<forall>k. s < k \<and> k < n \<longrightarrow> step_err a t (n - s) < step_err a t (k - s)) \<and>
            (\<forall>k. s < k \<and> k \<le> N \<longrightarrow> step_err a t (n - s) \<le> step_err a t (k - s)))"
proof -
  define g where "g = (\<lambda>k. (k, rel_error (rat_of_int (k - s) * a) t, rat_of_int (k - s) * a))"
  let ?step = "\<lambda>min curr. if js_less (fst (snd curr)) (fst (snd min)) then curr else min"
  have ne: "s + 1 \<le> N"
  proof (rule ccontr)
    assume "\<not> s + 1 \<le> N"
    then have "[s + 1..N] = []" by simp
    then show False using assms by (simp add: reduce_min_def)
  qed
  have "s + 1 + 1 = s + 2" by simp
  then have u: "[s + 1..N] = (s + 1) # [s + 2..N]"
    using ne upto_rec1[of "s + 1" N] by (simp only: if_True)
  have fold: "foldl ?step (g (s + 1)) (map g [s + 2..N]) = (n, e, c)"
    using assms unfolding g_def[symmetric] u by (simp add: reduce_min_def)
  show ?thesis
  proof (cases "t = 0")
    case True
    have "\<forall>y \<in> set (map g [s + 2..N]). \<not> js_less (fst (snd y)) (fst (snd (g (s + 1))))"
      by (simp add: g_def True rel_error_zero_target)
    then have "foldl ?step (g (s + 1)) (map g [s + 2..N]) = g (s + 1)" by (rule foldl_keep_first)
    then have "(n, e, c) = g (s + 1)" using fold by simp
    then show ?thesis using True ne by (simp add: g_def)
  next
    case False
    have h: "fst (snd (g k)) = Fin (step_err a t (k - s))" for k
      unfolding g_def using rel_error_step_err[OF False, of "k - s" a] by (simp only: fst_conv snd_conv)
    from foldl_first_min[of g "\<lambda>k. step_err a t (k - s)" "s + 1" "[s + 2..N]", OF h]
    obtain pre k post where
      r: "(s + 1) # [s + 2..N] = pre @ k # post"
        "foldl ?step (g (s + 1)) (map g [s + 2..N]) = g k"
        "\<forall>y \<in> set pre. step_err a t (k - s) < step_err a t (y - s)"
        "\<forall>y \<in> set ((s + 1) # [s + 2..N]). step_err a t (k - s) \<le> step_err a t (y - s)"
      by blast
    have nk: "n = k" and c: "c = rat_of_int (k - s) * a" using fold r(2) by (simp_all add: g_def)
    have split: "[s + 1..N] = pre @ k # post" using r(1) u by simp
    then have "k \<in> set [s + 1..N]" by simp
    then have range: "s < k" "k \<le> N" by simp_all
    have before: "step_err a t (k - s) < step_err a t (y - s)" if "s < y" "y < k" for y
    proof -
      have "y \<in> set pre" using split _ that(2) by (rule upto_before) (use that(1) in simp)
      then show ?thesis using r(3) by blast
    qed
    have all: "step_err a t (k - s) \<le> step_err a t (y - s)" if "s < y" "y \<le> N" for y
    proof -
      have "y \<in> set [s + 1..N]" using that by simp
      then have "y \<in> set ((s + 1) # [s + 2..N])" by (simp only: u)
      then show ?thesis using r(4) by blast
    qed
    show ?thesis using False range c before all unfolding nk by blast
  qed
qed

lemma step_match_uniform:
  assumes a: "0 \<le> a"
    and m: "reduce_min (map (\<lambda>k. (k, rel_error (rat_of_int (k - s) * a) t, rat_of_int (k - s) * a))
             [s + 1..N]) = Inr (n, e, c)"
    and m': "reduce_min (map (\<lambda>k. (k, rel_error (rat_of_int (k - s') * a) t, rat_of_int (k - s') * a))
             [s' + 1..N]) = Inr (n', e', c')"
    and lt: "n < N" "n' < N"
  shows "c = c'"
proof -
  note ch = step_match_char[OF m]
  note ch' = step_match_char[OF m']
  show ?thesis
  proof (cases "t = 0")
    case True
    then have "n - s = 1" "n' - s' = 1" using ch ch' by simp_all
    then show ?thesis using ch ch' by simp
  next
    case False
    have "n - s = n' - s'"
    proof (rule step_err_first_min_unique[OF a False])
      show "1 \<le> n - s" using ch by simp
      show "1 \<le> n' - s'" using ch' by simp
      have "step_err a t (n - s) \<le> step_err a t ((n + 1) - s)"
        using ch False lt(1) by simp
      then show "step_err a t (n - s) \<le> step_err a t (n - s + 1)" by (simp add: algebra_simps)
      have "step_err a t (n' - s') \<le> step_err a t ((n' + 1) - s')"
        using ch' False lt(2) by simp
      then show "step_err a t (n' - s') \<le> step_err a t (n' - s' + 1)" by (simp add: algebra_simps)
    next
      fix i :: int assume i: "1 \<le> i" "i < n - s"
      have "s < s + i \<and> s + i < n" using i by simp
      then have "step_err a t (n - s) < step_err a t ((s + i) - s)"
        using ch False by blast
      then show "step_err a t (n - s) < step_err a t i" by simp
    next
      fix i :: int assume i: "1 \<le> i" "i < n' - s'"
      have "s' < s' + i \<and> s' + i < n'" using i by simp
      then have "step_err a t (n' - s') < step_err a t ((s' + i) - s')"
        using ch' False by blast
      then show "step_err a t (n' - s') < step_err a t i" by simp
    qed
    then show ?thesis using ch ch' by simp
  qed
qed

section \<open>Mean step of a generated window sequence\<close>

text \<open>
  The physical distance between the start positions of adjacent windows, read from the
  \<^verbatim>\<open>start_mm\<close> each window records (the \<^verbatim>\<open>rel_center_mm\<close> of its start position), and the
  arithmetic mean of these distances over the adjacent pairs.
\<close>

fun adjacent_start_distances :: "entry list \<Rightarrow> rat list" where
  "adjacent_start_distances (v # w # ws) =
     \<bar>start_mm (window w) - start_mm (window v)\<bar> # adjacent_start_distances (w # ws)"
| "adjacent_start_distances _ = []"

definition mean_adjacent_step :: "entry list \<Rightarrow> rat" where
  "mean_adjacent_step ws =
     foldl (\<lambda>acc dist. acc + dist) 0 (adjacent_start_distances ws) / rat_of_nat (length ws - 1)"

definition linked :: "entry list \<Rightarrow> bool" where
  "linked vs = successively (\<lambda>v w. step_img (step v) = start_img (window w)) vs"

definition stepped ::
  "int \<Rightarrow> rat \<Rightarrow> rat \<Rightarrow> rat \<times> rat \<Rightarrow> rat \<Rightarrow> entry \<Rightarrow> bool" where
  "stepped N L th x d v \<longleftrightarrow>
     step_distance_mm (step v) = d \<and>
     start_mm (window v) = rat_of_int (N - start_img (window v)) * (L / rat_of_int (N - 1)) \<and>
     1 \<le> start_img (window v) \<and> start_img (window v) \<le> N \<and>
     (\<exists>e2 c2. get_asdf1 (getSlicePositions N L th) (start_img (window v)) (snd x)
                = Inr (step_img (step v), e2, c2))"

definition chained ::
  "int \<Rightarrow> rat \<Rightarrow> rat \<Rightarrow> rat \<times> rat \<Rightarrow> rat \<Rightarrow> int \<Rightarrow> entry list \<Rightarrow> bool" where
  "chained N L th x d m vs \<longleftrightarrow>
     vs \<noteq> [] \<and> step_img (step (last vs)) = m \<and> linked vs \<and>
     (\<forall>v \<in> set vs. stepped N L th x d v) \<and>
     (\<exists>e2. get_asdf1 (getSlicePositions N L th) (start_img (window (hd vs))) (snd x)
                = Inr (step_img (step (hd vs)), e2, d))"

lemma make_entry_stepped:
  assumes "get_asdf1 (getSlicePositions N L th) s (snd x) = Inr (n, e2, c2)"
    and "make_entry (getSlicePositions N L th) s e e1 c n e2 d = Inr v"
  shows "stepped N L th x d v"
proof -
  note f = make_entry_Inr[OF assms(2)]
  from f(8) obtain ps where
    ps: "map_of (getSlicePositions N L th) s = Some ps" "start_mm (window v) = rel_center_mm ps"
    by blast
  have range: "1 \<le> s \<and> s \<le> N"
    using ps(1) by (simp add: map_of_getSlicePositions split: if_splits)
  then have "ps = snd (slice N (L / rat_of_int (N - 1)) th s)"
    using ps(1) by (simp add: map_of_getSlicePositions)
  then have "start_mm (window v) = rat_of_int (N - s) * (L / rat_of_int (N - 1))"
    using ps(2) by (simp add: slice_def)
  then show ?thesis using f(1,5,7) range assms(1) by (simp add: stepped_def)
qed

lemma chained_snoc:
  assumes "chained N L th x d m vs"
    and "get_asdf1 (getSlicePositions N L th) m (snd x) = Inr (m', e2, c2)"
    and "make_entry (getSlicePositions N L th) m e e1 c m' e2 d = Inr v"
  shows "chained N L th x d m' (vs @ [v])"
proof -
  note f = make_entry_Inr[OF assms(3)]
  have ne: "vs \<noteq> []" using assms(1) by (simp add: chained_def)
  have "linked (vs @ [v])"
    using assms(1) f(1) ne by (simp add: chained_def linked_def successively_append_iff)
  moreover have "stepped N L th x d v" using assms(2,3) by (rule make_entry_stepped)
  moreover have "hd (vs @ [v]) = hd vs" using ne by simp
  ultimately show ?thesis using assms(1) f(5) unfolding chained_def by auto
qed

lemma get_windows_chained:
  assumes "get_windows (getSlicePositions N L th) x = Inr ws"
  shows "\<exists>d m. chained N L th x d m ws \<and> m < N"
proof -
  let ?T = "getSlicePositions N L th"
  obtain p ps e e1 c n e2 d w where
    "?T = p # ps"
    and first1: "get_asdf ?T (fold min (map fst ps) (fst p)) (fst x) = Inr (e, e1, c)"
    and first1': "get_asdf1 ?T (fold min (map fst ps) (fst p)) (snd x) = Inr (n, e2, d)"
    and first2: "make_entry ?T (fold min (map fst ps) (fst p)) e e1 c n e2 d = Inr w"
    and loop: "get_windows_loop ?T x d n [w] = Inr ws"
    by (rule get_windows_InrD[OF assms])
  note f = make_entry_Inr[OF first2]
  have "stepped N L th x d w" using first1' first2 by (rule make_entry_stepped)
  then have init: "chained N L th x d n [w]"
    using f(1,5) first1' by (auto simp: chained_def linked_def)
  have step: "chained N L th x d m' vs'"
    if inv: "chained N L th x d m vs" and body: "get_windows_body ?T x d m vs = Continue m' vs'"
    for m vs m' vs'
  proof -
    obtain e e1 c e2 c2 v where
      b: "get_asdf ?T m (fst x) = Inr (e, e1, c)" "\<not> js_less (Fin 1) e1"
        "get_asdf1 ?T m (snd x) = Inr (m', e2, c2)"
        "make_entry ?T m e e1 c m' e2 d = Inr v" "vs' = vs @ [v]"
      by (rule get_windows_body_ContinueD[OF body])
    show ?thesis unfolding b(5) using inv b(3,4) by (rule chained_snoc)
  qed
  have "\<exists>m. chained N L th x d m ws \<and> get_windows_body ?T x d m ws = Broke ws"
    using loop init step by (rule get_windows_loop_invariant[where P = "chained N L th x d"])
  then obtain m where m: "chained N L th x d m ws" "get_windows_body ?T x d m ws = Broke ws"
    by blast
  obtain e e1 c where "get_asdf ?T m (fst x) = Inr (e, e1, c)"
    by (rule get_windows_body_BrokeD[OF m(2)])
  then have "e \<in> fst ` set (get_future_positions ?T m)" by (rule get_asdf_future)
  then have "m < e" "e \<in> fst ` set ?T" by (rule future_key)+
  then have "m < N" unfolding set_keys_getSlicePositions by simp
  with m(1) show ?thesis by blast
qed

lemma linked_next_bound:
  assumes "linked vs" "vs \<noteq> []" "step_img (step (last vs)) < N"
    and "\<forall>w \<in> set vs. start_img (window w) < N"
  shows "\<forall>v \<in> set vs. step_img (step v) < N"
  using assms
proof (induction vs)
  case Nil
  then show ?case by simp
next
  case (Cons v vs)
  show ?case
  proof (cases vs)
    case Nil
    then show ?thesis using Cons.prems by simp
  next
    case (Cons w ws)
    then have "step_img (step v) = start_img (window w)" "linked vs"
      using Cons.prems(1) by (simp_all add: linked_def)
    moreover have "\<forall>u \<in> set vs. step_img (step u) < N"
      using Cons.IH Cons.prems \<open>linked vs\<close> Cons by simp
    ultimately show ?thesis using Cons.prems(4) Cons by simp
  qed
qed

lemma adjacent_replicate:
  assumes "linked vs"
    and "\<And>v w. v \<in> set vs \<Longrightarrow> w \<in> set vs \<Longrightarrow> step_img (step v) = start_img (window w) \<Longrightarrow>
           \<bar>start_mm (window w) - start_mm (window v)\<bar> = d"
  shows "adjacent_start_distances vs = replicate (length vs - 1) d"
  using assms
proof (induction vs rule: adjacent_start_distances.induct)
  case (1 v w ws)
  have l: "step_img (step v) = start_img (window w)" "linked (w # ws)"
    using "1.prems"(1) by (simp_all add: linked_def)
  have "\<bar>start_mm (window w) - start_mm (window v)\<bar> = d"
    using l(1) by (intro "1.prems"(2)) simp_all
  moreover have "adjacent_start_distances (w # ws) = replicate (length (w # ws) - 1) d"
    using l(2) by (rule "1.IH") (rule "1.prems"(2), simp_all)
  ultimately show ?case by simp
qed simp_all

lemma foldl_add_replicate:
  "foldl (\<lambda>acc (dist::rat). acc + dist) b (replicate k d) = b + rat_of_nat k * d"
  by (induction k arbitrary: b) (simp_all add: algebra_simps)

lemma foldl_add_const:
  assumes "\<forall>v \<in> set vs. f v = d"
  shows "foldl (\<lambda>acc v. acc + f v) (b::rat) vs = b + rat_of_nat (length vs) * d"
  using assms by (induction vs arbitrary: b) (simp_all add: algebra_simps)

lemma start_distance:
  fixes sp :: rat
  assumes "s < n"
  shows "\<bar>rat_of_int (N - n) * sp - rat_of_int (N - s) * sp\<bar> = rat_of_int (n - s) * \<bar>sp\<bar>"
proof -
  have "rat_of_int (N - n) * sp - rat_of_int (N - s) * sp = - (rat_of_int (n - s) * sp)"
    by (simp add: algebra_simps)
  then have "\<bar>rat_of_int (N - n) * sp - rat_of_int (N - s) * sp\<bar> = \<bar>rat_of_int (n - s) * sp\<bar>"
    by simp
  also have "\<dots> = rat_of_int (n - s) * \<bar>sp\<bar>" using assms by (simp add: abs_mult)
  finally show ?thesis .
qed

lemma get_stats_Inr:
  assumes "ws \<noteq> []"
    and "map_of sp (start_img (window (hd ws))) = Some a"
    and "map_of sp (end_img (window (last ws))) = Some b"
  shows "\<exists>st. get_stats sp ws = Inr st \<and>
           st Step_size = foldl (\<lambda>acc w. acc + step_distance_mm (step w)) 0 ws
                            / rat_of_nat (length ws)"
proof -
  obtain v vs where ws: "ws = v # vs" using assms(1) by (cases ws) auto
  show ?thesis using assms(2,3) unfolding ws get_stats_def by (simp add: Let_def)
qed

text \<open>
  In exact arithmetic, for every window sequence of at least two windows that \<^verbatim>\<open>get_windows\<close>
  returns over the table of \<^verbatim>\<open>getSlicePositions\<close>, \<^verbatim>\<open>get_stats\<close> succeeds and its \<^verbatim>\<open>step_size\<close>
  equals the arithmetic mean, over the adjacent window pairs, of the physical distance
  between the two windows' start positions. \<^verbatim>\<open>get_stats\<close> does not compute that mean: it adds
  the \<^verbatim>\<open>distance_mm\<close> recorded with each of the \<open>n\<close> windows and divides by \<open>n\<close>, and every
  recorded distance is the one of the first step. The two values agree here only because,
  without rounding, every step of a returned sequence over an evenly spaced table has the
  length of the first one. The code rounds, and there they differ: see the next section.
\<close>

lemma step_size_mean_exact_arithmetic:
  assumes g: "get_windows (getSlicePositions totalImages totalLength sliceThickness) x = Inr ws"
    and n: "2 \<le> length ws"
  shows "\<exists>st. get_stats (getSlicePositions totalImages totalLength sliceThickness) ws = Inr st \<and>
           st Step_size = mean_adjacent_step ws"
proof -
  let ?T = "getSlicePositions totalImages totalLength sliceThickness"
  define sp where "sp = totalLength / rat_of_int (totalImages - 1)"
  obtain d m where ch: "chained totalImages totalLength sliceThickness x d m ws"
    and m: "m < totalImages"
    using get_windows_chained[OF g] by blast
  obtain m' where io: "in_order ?T m' ws" using get_windows_in_order[OF g] by blast
  have ne: "ws \<noteq> []" using n by auto
  have keys: "start_img (window w) < end_img (window w) \<and>
      start_img (window w) \<in> {1..totalImages} \<and> end_img (window w) \<in> {1..totalImages}"
    if "w \<in> set ws" for w
    using io that unfolding in_order_def set_keys_getSlicePositions by blast
  have starts: "\<forall>w \<in> set ws. start_img (window w) < totalImages"
    using keys by fastforce
  have lk: "linked ws" and last: "step_img (step (last ws)) = m"
    and st: "\<And>v. v \<in> set ws \<Longrightarrow> stepped totalImages totalLength sliceThickness x d v"
    using ch unfolding chained_def by blast+
  obtain e0 where first:
    "get_asdf1 ?T (start_img (window (hd ws))) (snd x) = Inr (step_img (step (hd ws)), e0, d)"
    using ch unfolding chained_def by blast
  have nb: "\<forall>v \<in> set ws. step_img (step v) < totalImages"
    using lk ne _ starts by (rule linked_next_bound) (simp add: last m)
  have hd_in: "hd ws \<in> set ws" using ne by simp
  have table: "get_asdf1 ?T (start_img (window v)) (snd x) =
      reduce_min (map (\<lambda>k. (k, rel_error (rat_of_int (k - start_img (window v)) * \<bar>sp\<bar>) (snd x),
                            rat_of_int (k - start_img (window v)) * \<bar>sp\<bar>))
                    [start_img (window v) + 1..totalImages])"
    if "v \<in> set ws" for v
    unfolding sp_def using keys[OF that] by (intro get_asdf1_table) simp_all
  have dist: "rat_of_int (step_img (step v) - start_img (window v)) * \<bar>sp\<bar> = d \<and>
      start_img (window v) < step_img (step v)"
    if v: "v \<in> set ws" for v
  proof -
    obtain e2 c2 where c2: "get_asdf1 ?T (start_img (window v)) (snd x)
        = Inr (step_img (step v), e2, c2)"
      using st[OF v] unfolding stepped_def by blast
    have r: "reduce_min (map (\<lambda>k. (k, rel_error (rat_of_int (k - start_img (window v)) * \<bar>sp\<bar>) (snd x),
                            rat_of_int (k - start_img (window v)) * \<bar>sp\<bar>))
                    [start_img (window v) + 1..totalImages]) = Inr (step_img (step v), e2, c2)"
      using c2 table[OF v] by simp
    have r0: "reduce_min (map (\<lambda>k. (k, rel_error (rat_of_int (k - start_img (window (hd ws))) * \<bar>sp\<bar>) (snd x),
                            rat_of_int (k - start_img (window (hd ws))) * \<bar>sp\<bar>))
                    [start_img (window (hd ws)) + 1..totalImages])
          = Inr (step_img (step (hd ws)), e0, d)"
      using first table[OF hd_in] by simp
    have "c2 = d"
      using _ r r0 by (rule step_match_uniform) (use nb v hd_in in simp_all)
    moreover note step_match_char[OF r]
    ultimately show ?thesis by simp
  qed
  have adj: "\<bar>start_mm (window w) - start_mm (window v)\<bar> = d"
    if v: "v \<in> set ws" and w: "w \<in> set ws"
      and l: "step_img (step v) = start_img (window w)" for v w
  proof -
    have sv: "start_mm (window v) = rat_of_int (totalImages - start_img (window v)) * sp"
      and sw: "start_mm (window w) = rat_of_int (totalImages - start_img (window w)) * sp"
      using st[OF v] st[OF w] unfolding stepped_def sp_def by blast+
    have "\<bar>rat_of_int (totalImages - step_img (step v)) * sp
           - rat_of_int (totalImages - start_img (window v)) * sp\<bar>
          = rat_of_int (step_img (step v) - start_img (window v)) * \<bar>sp\<bar>"
      using dist[OF v] by (intro start_distance) simp
    then show ?thesis using dist[OF v] unfolding sv sw l[symmetric] by simp
  qed
  have "adjacent_start_distances ws = replicate (length ws - 1) d"
    using lk adj by (rule adjacent_replicate)
  then have "mean_adjacent_step ws = rat_of_nat (length ws - 1) * d / rat_of_nat (length ws - 1)"
    by (simp add: mean_adjacent_step_def foldl_add_replicate)
  then have mean: "mean_adjacent_step ws = d" using n by simp
  have "\<forall>v \<in> set ws. step_distance_mm (step v) = d" using st unfolding stepped_def by blast
  then have "foldl (\<lambda>acc w. acc + step_distance_mm (step w)) 0 ws
      = 0 + rat_of_nat (length ws) * d"
    by (rule foldl_add_const)
  then have stat: "foldl (\<lambda>acc w. acc + step_distance_mm (step w)) 0 ws / rat_of_nat (length ws) = d"
    using ne by simp
  have "last ws \<in> set ws" using ne by simp
  then obtain a b where "map_of ?T (start_img (window (hd ws))) = Some a"
    "map_of ?T (end_img (window (last ws))) = Some b"
    using keys[OF hd_in] keys[of "last ws"] by (simp add: map_of_getSlicePositions)
  from get_stats_Inr[OF ne this] stat mean show ?thesis by auto
qed

section \<open>Rounding to binary64\<close>

text \<open>
  \<open>exponent2 a\<close> is the binary exponent of a positive \<open>a\<close>: the one \<open>e\<close> with
  \<open>2 ^ e \<le> a < 2 ^ (e + 1)\<close>.
\<close>

lemma pow2_pos: "0 < pow2 k"
  by (simp add: pow2_def)

lemma pow2_Suc: "pow2 (k + 1) = 2 * pow2 k"
proof (cases "0 \<le> k")
  case True
  then have "nat (k + 1) = Suc (nat k)" by simp
  then show ?thesis using True by (simp add: pow2_def)
next
  case False
  then have "nat (- k) = Suc (nat (- (k + 1)))" by simp
  then show ?thesis using False by (simp add: pow2_def)
qed

lemma pow2_mono:
  assumes "k \<le> l"
  shows "pow2 k \<le> pow2 l"
proof -
  have "pow2 k \<le> pow2 (k + int n)" for n
  proof (induction n)
    case 0
    show ?case by simp
  next
    case (Suc n)
    have "k + int (Suc n) = k + int n + 1" by simp
    then have "pow2 (k + int (Suc n)) = 2 * pow2 (k + int n)"
      by (simp only: pow2_Suc)
    then show ?case using Suc pow2_pos[of "k + int n"] by simp
  qed
  from this[of "nat (l - k)"] show ?thesis using assms by simp
qed

lemma exponent_up_bounds:
  assumes "1 \<le> a"
  shows "pow2 (exponent_up a) \<le> a \<and> a < pow2 (exponent_up a + 1)"
  using assms
proof (induction a rule: exponent_up.induct)
  case (1 a)
  show ?case
  proof (cases "2 \<le> a")
    case True
    have e: "exponent_up a = exponent_up (a / 2) + 1"
      using True by (subst exponent_up.simps) simp
    have "1 \<le> a / 2" using True by simp
    from "1.IH"[OF True this]
    have "pow2 (exponent_up (a / 2)) \<le> a / 2" "a / 2 < pow2 (exponent_up (a / 2) + 1)"
      by simp_all
    moreover have "pow2 (exponent_up (a / 2) + 1 + 1) = 2 * pow2 (exponent_up (a / 2) + 1)"
      by (rule pow2_Suc)
    moreover have "pow2 (exponent_up (a / 2) + 1) = 2 * pow2 (exponent_up (a / 2))"
      by (rule pow2_Suc)
    ultimately show ?thesis unfolding e by simp
  next
    case False
    then have e: "exponent_up a = 0" by (subst exponent_up.simps) simp
    have "pow2 0 = 1" "pow2 (0 + 1) = 2" by (simp_all add: pow2_def)
    then show ?thesis using False "1.prems" unfolding e by simp
  qed
qed

lemma exponent_down_bounds:
  assumes "0 < a" and "a < 1"
  shows "pow2 (exponent_down a) \<le> a \<and> a < pow2 (exponent_down a + 1)"
  using assms
proof (induction a rule: exponent_down.induct)
  case (1 a)
  have c: "0 < a \<and> a < 1" using "1.prems" by simp
  have e: "exponent_down a = exponent_down (a * 2) - 1"
    using c by (subst exponent_down.simps) simp
  show ?case
  proof (cases "a * 2 < 1")
    case True
    have "0 < a * 2" using c by simp
    from "1.IH"[OF c this True]
    have "pow2 (exponent_down (a * 2)) \<le> a * 2"
      "a * 2 < pow2 (exponent_down (a * 2) + 1)" by simp_all
    moreover have "pow2 (exponent_down (a * 2)) = 2 * pow2 (exponent_down (a * 2) - 1)"
      using pow2_Suc[of "exponent_down (a * 2) - 1"] by simp
    moreover have "pow2 (exponent_down (a * 2) + 1) = 2 * pow2 (exponent_down (a * 2))"
      by (rule pow2_Suc)
    ultimately show ?thesis unfolding e by simp
  next
    case False
    then have "exponent_down (a * 2) = 0" by (subst exponent_down.simps) simp
    moreover have "pow2 (- 1) = 1 / 2" "pow2 0 = 1" by (simp_all add: pow2_def)
    ultimately show ?thesis using False c unfolding e by simp
  qed
qed

lemma exponent2_bounds:
  assumes "0 < a"
  shows "pow2 (exponent2 a) \<le> a \<and> a < pow2 (exponent2 a + 1)"
  using assms exponent_up_bounds[of a] exponent_down_bounds[of a]
  by (cases "1 \<le> a") (simp_all add: exponent2_def)

lemma exponent2_unique:
  assumes lo: "pow2 e \<le> a" and hi: "a < pow2 (e + 1)"
  shows "exponent2 a = e"
proof -
  have a: "0 < a" using lo pow2_pos[of e] by simp
  note b = exponent2_bounds[OF a]
  have "\<not> exponent2 a < e"
  proof
    assume "exponent2 a < e"
    then have "pow2 (exponent2 a + 1) \<le> pow2 e" by (intro pow2_mono) simp
    then show False using b lo by simp
  qed
  moreover have "\<not> e < exponent2 a"
  proof
    assume "e < exponent2 a"
    then have "pow2 (e + 1) \<le> pow2 (exponent2 a)" by (intro pow2_mono) simp
    then show False using b hi by simp
  qed
  ultimately show ?thesis by simp
qed

text \<open>
  Evaluation of \<open>binary64\<close> on numerals: the exponent by halving or doubling, the
  significand by integer division.
\<close>

lemma floor_rat_numeral: "\<lfloor>(numeral a :: rat) / numeral b\<rfloor> = numeral a div numeral b"
  using floor_divide_of_int_eq[of "numeral a" "numeral b", where ?'a = rat] by simp

lemma exponent_up_eval:
  "2 \<le> a \<Longrightarrow> exponent_up a = exponent_up (a / 2) + 1"
  "a < 2 \<Longrightarrow> exponent_up a = 0"
  by (subst exponent_up.simps, simp)+

lemma exponent_down_eval:
  "0 < a \<Longrightarrow> a < 1 \<Longrightarrow> exponent_down a = exponent_down (a * 2) - 1"
  "1 \<le> a \<Longrightarrow> exponent_down a = 0"
  by (subst exponent_down.simps, simp)+

lemma exponent2_eval:
  "1 \<le> a \<Longrightarrow> exponent2 a = exponent_up a"
  "a < 1 \<Longrightarrow> exponent2 a = exponent_down a"
  by (simp_all add: exponent2_def)

lemma pow2_eval:
  "0 \<le> k \<Longrightarrow> pow2 k = 2 ^ nat k" "k < 0 \<Longrightarrow> pow2 k = 1 / 2 ^ nat (- k)"
  by (simp_all add: pow2_def)

lemma nearest_even_quotient:
  assumes b: "0 < b"
  shows "nearest_even (rat_of_int a / rat_of_int b) =
     (if 2 * (a mod b) < b then a div b
      else if b < 2 * (a mod b) then a div b + 1
      else if even (a div b) then a div b
      else a div b + 1)"
proof -
  have fl: "\<lfloor>rat_of_int a / rat_of_int b\<rfloor> = a div b"
    by (rule floor_divide_of_int_eq)
  have "rat_of_int a = rat_of_int (a div b) * rat_of_int b + rat_of_int (a mod b)"
    by (metis of_int_add of_int_mult div_mult_mod_eq)
  then have r: "rat_of_int a / rat_of_int b - rat_of_int (a div b) =
      rat_of_int (a mod b) / rat_of_int b"
    using b by (simp add: field_simps)
  have lt: "rat_of_int (a mod b) / rat_of_int b < 1 / 2 \<longleftrightarrow> 2 * (a mod b) < b"
  proof -
    have "rat_of_int (a mod b) / rat_of_int b < 1 / 2
      \<longleftrightarrow> rat_of_int (2 * (a mod b)) < rat_of_int b"
      using b by (simp add: field_simps)
    then show ?thesis by (simp only: of_int_less_iff)
  qed
  have gt: "1 / 2 < rat_of_int (a mod b) / rat_of_int b \<longleftrightarrow> b < 2 * (a mod b)"
  proof -
    have "1 / 2 < rat_of_int (a mod b) / rat_of_int b
      \<longleftrightarrow> rat_of_int b < rat_of_int (2 * (a mod b))"
      using b by (simp add: field_simps)
    then show ?thesis by (simp only: of_int_less_iff)
  qed
  show ?thesis
    unfolding nearest_even_def Let_def fl r lt gt ..
qed

lemma nearest_even_eval:
  "nearest_even (numeral a / numeral b) =
     (if 2 * (numeral a mod numeral b) < (numeral b :: int) then numeral a div numeral b
      else if (numeral b :: int) < 2 * (numeral a mod numeral b) then numeral a div numeral b + 1
      else if even (numeral a div numeral b :: int) then numeral a div numeral b
      else numeral a div numeral b + 1)"
  "nearest_even (1 / numeral b) =
     (if 2 * (1 mod numeral b) < (numeral b :: int) then 1 div numeral b
      else if (numeral b :: int) < 2 * (1 mod numeral b) then 1 div numeral b + 1
      else if even (1 div numeral b :: int) then 1 div numeral b
      else 1 div numeral b + 1)"
  "nearest_even (numeral a) = numeral a" "nearest_even 1 = 1" "nearest_even 0 = 0"
proof -
  show "nearest_even (numeral a / numeral b) =
     (if 2 * (numeral a mod numeral b) < (numeral b :: int) then numeral a div numeral b
      else if (numeral b :: int) < 2 * (numeral a mod numeral b) then numeral a div numeral b + 1
      else if even (numeral a div numeral b :: int) then numeral a div numeral b
      else numeral a div numeral b + 1)"
    using nearest_even_quotient[of "numeral b" "numeral a"] by simp
  show "nearest_even (1 / numeral b) =
     (if 2 * (1 mod numeral b) < (numeral b :: int) then 1 div numeral b
      else if (numeral b :: int) < 2 * (1 mod numeral b) then 1 div numeral b + 1
      else if even (1 div numeral b :: int) then 1 div numeral b
      else 1 div numeral b + 1)"
    using nearest_even_quotient[of "numeral b" 1] by simp
  show "nearest_even (numeral a) = numeral a" "nearest_even 1 = 1" "nearest_even 0 = 0"
    by (simp_all add: nearest_even_def)
qed

lemma binary64_eval:
  "binary64 0 = 0"
  "0 < q \<Longrightarrow> binary64 q =
     rat_of_int (nearest_even (q / pow2 (max (exponent2 q - 52) (- 1074))))
       * pow2 (max (exponent2 q - 52) (- 1074))"
  "q < 0 \<Longrightarrow> binary64 q =
     - (rat_of_int (nearest_even (- q / pow2 (max (exponent2 (- q) - 52) (- 1074))))
       * pow2 (max (exponent2 (- q) - 52) (- 1074)))"
  by (simp_all add: binary64_def Let_def)

lemmas fl_eval = binary64_eval exponent2_eval exponent_up_eval exponent_down_eval pow2_eval
  nearest_even_eval

text \<open>
  Some doubles: the nearest to 0.1 and to a third, integers beyond \<open>2 ^ 53\<close> halfway between
  two doubles, and subnormal numbers, whose spacing is \<open>2 ^ - 1074\<close>.
\<close>

lemma binary64_examples:
  "binary64 (1 / 10) = 3602879701896397 / 36028797018963968"
  "binary64 (1 / 3) = 6004799503160661 / 18014398509481984"
  "binary64 (- (1 / 3)) = - (6004799503160661 / 18014398509481984)"
  "binary64 (6004799503160661 / 18014398509481984) = 6004799503160661 / 18014398509481984"
  "binary64 9007199254740993 = 9007199254740992"
  "binary64 9007199254740995 = 9007199254740996"
  "binary64 (1 / 2) = 1 / 2" "binary64 100 = 100" "binary64 0 = 0" "binary64 1 = 1"
  by (simp_all add: fl_eval)

lemma binary64_subnormal_examples:
  "binary64 (3 / 2 ^ 1075) = 1 / 2 ^ 1073" "binary64 (1 / 2 ^ 1075) = 0"
  "binary64 (5 / 2 ^ 1076) = 1 / 2 ^ 1074"
proof -
  have e: "exponent2 (3 / 2 ^ 1075) = - 1074" "exponent2 (1 / 2 ^ 1075) = - 1075"
    "exponent2 (5 / 2 ^ 1076) = - 1074"
    by (rule exponent2_unique; simp add: pow2_def)+
  have p: "0 < (3 :: rat) / 2 ^ 1075" "0 < (1 :: rat) / 2 ^ 1075" "0 < (5 :: rat) / 2 ^ 1076"
    by simp_all
  show "binary64 (3 / 2 ^ 1075) = 1 / 2 ^ 1073" "binary64 (1 / 2 ^ 1075) = 0"
    "binary64 (5 / 2 ^ 1076) = 1 / 2 ^ 1074"
    unfolding binary64_eval(2)[OF p(1)] binary64_eval(2)[OF p(2)] binary64_eval(2)[OF p(3)] e
    by (simp_all add: pow2_eval nearest_even_eval)
qed

section \<open>The recorded step distance\<close>

text \<open>
  Without rounding the functions of the binary64 variant are those of the exact model.
\<close>

lemma getSlicePositions_loop_fl_id:
  "getSlicePositions_loop_fl (\<lambda>q. q) totalImages spaceBetweenSlices sliceThickness i positions =
   getSlicePositions_loop totalImages spaceBetweenSlices sliceThickness i positions"
proof (induction totalImages spaceBetweenSlices sliceThickness i positions
    rule: getSlicePositions_loop.induct)
  case (1 totalImages spaceBetweenSlices sliceThickness i positions)
  then show ?case
    by (subst getSlicePositions_loop_fl.simps, subst getSlicePositions_loop.simps) simp
qed

lemma getSlicePositions_fl_id:
  "getSlicePositions_fl (\<lambda>q. q) totalImages totalLength sliceThickness =
   getSlicePositions totalImages totalLength sliceThickness"
  by (simp add: getSlicePositions_fl_def getSlicePositions_def getSlicePositions_loop_fl_id)

lemma measures_fl_id:
  "distance_mm_fl (\<lambda>q. q) = distance_mm" "thickness_mm_fl (\<lambda>q. q) = thickness_mm"
  "coverage_mm_fl (\<lambda>q. q) = coverage_mm" "rel_error_fl (\<lambda>q. q) = rel_error"
proof -
  show d: "distance_mm_fl (\<lambda>q. q) = distance_mm"
    unfolding distance_mm_fl_def distance_mm_def ..
  show t: "thickness_mm_fl (\<lambda>q. q) = thickness_mm"
    unfolding thickness_mm_fl_def thickness_mm_def ..
  show "coverage_mm_fl (\<lambda>q. q) = coverage_mm"
    unfolding coverage_mm_fl_def coverage_mm_def d t ..
  show "rel_error_fl (\<lambda>q. q) = rel_error"
    unfolding rel_error_fl_def rel_error_def ..
qed

lemma get_asdf_fl_id:
  "get_asdf_fl (\<lambda>q. q) = get_asdf" "get_asdf1_fl (\<lambda>q. q) = get_asdf1"
  unfolding get_asdf_fl_def get_asdf_def get_asdf1_fl_def get_asdf1_def measures_fl_id
  by (rule refl)+

lemma get_windows_body_fl_id: "get_windows_body_fl (\<lambda>q. q) = get_windows_body"
  unfolding get_windows_body_fl_def get_windows_body_def get_asdf_fl_id ..

lemma get_windows_loop_fl_id:
  "get_windows_loop_fl (\<lambda>q. q) sp x d n ws = get_windows_loop sp x d n ws"
proof (induction sp x d n ws rule: get_windows_loop.induct)
  case (1 sp x d n ws)
  show ?case
  proof (cases "get_windows_body sp x d n ws")
    case (Continue n' ws')
    with "1.IH"[OF Continue] show ?thesis
      by (subst get_windows_loop_fl.simps, subst get_windows_loop.simps)
        (simp add: get_windows_body_fl_id)
  qed (subst get_windows_loop_fl.simps, subst get_windows_loop.simps,
      simp add: get_windows_body_fl_id)+
qed

lemma get_windows_fl_id: "get_windows_fl (\<lambda>q. q) = get_windows"
proof -
  have loop: "get_windows_loop_fl (\<lambda>q. q) = get_windows_loop"
    by (intro ext) (rule get_windows_loop_fl_id)
  show ?thesis
    unfolding get_windows_fl_def get_windows_def get_asdf_fl_id loop ..
qed

lemma get_stats_fl_id: "get_stats_fl (\<lambda>q. q) = get_stats"
  unfolding get_stats_fl_def get_stats_def measures_fl_id ..

text \<open>
  Whatever the rounding, every window of a returned sequence records the distance of the
  first step match: the loop never assigns \<open>d\<close> again. Without rounding \<^verbatim>\<open>step_size\<close> is
  therefore that distance.
\<close>

lemma get_windows_loop_fl_stale:
  assumes "get_windows_loop_fl rnd sp x d n ws = Inr res"
    and "ws \<noteq> []" and "\<forall>v \<in> set ws. step_distance_mm (step v) = d"
  shows "res \<noteq> [] \<and> hd res = hd ws \<and> (\<forall>v \<in> set res. step_distance_mm (step v) = d)"
  using assms
proof (induction rnd sp x d n ws rule: get_windows_loop_fl.induct)
  case (1 rnd sp x d n ws)
  show ?case
  proof (cases "get_windows_body_fl rnd sp x d n ws")
    case (Threw err)
    then show ?thesis using "1.prems"(1) by (simp add: get_windows_loop_fl.simps)
  next
    case (Broke ws')
    then have "res = ws'" using "1.prems"(1) by (simp add: get_windows_loop_fl.simps)
    moreover have "ws' = ws" using Broke
      by (auto simp: get_windows_body_fl_def Let_def split: sum.splits if_splits prod.splits)
    ultimately show ?thesis using "1.prems" by simp
  next
    case (Continue n' ws')
    then have run: "get_windows_loop_fl rnd sp x d n' ws' = Inr res"
      using "1.prems"(1) by (simp add: get_windows_loop_fl.simps)
    from Continue obtain e e1 c e2 w where
      w: "make_entry sp n e e1 c n' e2 d = Inr w" and ws': "ws' = ws @ [w]"
      by (auto simp: get_windows_body_fl_def Let_def split: sum.splits if_splits prod.splits)
    have "step_distance_mm (step w) = d" using w by (rule make_entry_Inr(7))
    then have "ws' \<noteq> []" "hd ws' = hd ws" "\<forall>v \<in> set ws'. step_distance_mm (step v) = d"
      using "1.prems"(2,3) ws' by simp_all
    with "1.IH"[OF Continue run] show ?thesis by simp
  qed
qed

lemma get_windows_fl_stale:
  assumes "get_windows_fl rnd sp x = Inr ws"
  shows "ws \<noteq> [] \<and> (\<forall>v \<in> set ws. step_distance_mm (step v) = step_distance_mm (step (hd ws)))"
proof -
  from assms obtain s e e1 c n e2 d w where
    w: "make_entry sp s e e1 c n e2 d = Inr w"
    and run: "get_windows_loop_fl rnd sp x d n [w] = Inr ws"
    by (auto simp: get_windows_fl_def Let_def split: list.splits sum.splits prod.splits)
  have d: "step_distance_mm (step w) = d" using w by (rule make_entry_Inr(7))
  from get_windows_loop_fl_stale[OF run] d show ?thesis by simp
qed

lemma get_stats_step_size_first:
  assumes "get_windows sp x = Inr ws" and "get_stats sp ws = Inr st"
  shows "st Step_size = step_distance_mm (step (hd ws))"
proof -
  from assms(1) have "get_windows_fl (\<lambda>q. q) sp x = Inr ws" by (simp add: get_windows_fl_id)
  from get_windows_fl_stale[OF this]
  have ne: "ws \<noteq> []"
    and all: "\<forall>v \<in> set ws. step_distance_mm (step v) = step_distance_mm (step (hd ws))"
    by blast+
  from all have "foldl (\<lambda>acc w. acc + step_distance_mm (step w)) 0 ws
      = 0 + rat_of_nat (length ws) * step_distance_mm (step (hd ws))"
    by (rule foldl_add_const)
  then have "foldl (\<lambda>acc w. acc + step_distance_mm (step w)) 0 ws / rat_of_nat (length ws)
      = step_distance_mm (step (hd ws))"
    using ne by simp
  with assms(2) show ?thesis
    by (auto simp: get_stats_def Let_def split: list.splits option.splits)
qed

text \<open>
  Claim C7 fails on the code. With 7 slices over 2 mm (thickness 1 mm) and the targets span
  2 mm, step 0.5 mm, the step target is halfway between one and two slice spacings. In
  binary64 the step match from slice 1 prefers slice 2 (distance 0.3333333333333335 mm) and
  the one from slice 2 prefers slice 4 (distance 0.6666666666666665 mm): \<^verbatim>\<open>get_windows\<close>
  returns three windows starting at slices 1, 2 and 4. The distances between adjacent start
  positions are 0.3333333333333335 mm and 0.6666666666666665 mm, their mean is 0.5 mm, and
  each window records the 0.3333333333333335 mm of the first step match, so that \<^verbatim>\<open>get_stats\<close>
  returns \<^verbatim>\<open>step_size\<close> = 0.3333333333333335 mm, the sum of the three recorded distances
  divided by three.
\<close>

theorem get_stats_step_size_stale:
  "let slicePositions = getSlicePositions_fl binary64 7 2 1;
       windows =
         [\<lparr>window =
             \<lparr>start_img = 1, start_idx = 0, start_mm = 2, end_img = 4,
                end_idx = 3, end_mm = 1, win_error = Fin 0, win_coverage_mm = 2,
                coverage_imgs = 4, center_idx = 2,
                center_mm = 3752999689475413 / 2251799813685248\<rparr>,
           step =
             \<lparr>step_img = 2, step_idx = 1, step_mm = None,
                step_error = Fin (2345624805922131 / 70368744177664),
                step_distance_mm = 750599937895083 / 2251799813685248,
                step_distance_imgs = 2\<rparr>\<rparr>,
          \<lparr>window =
             \<lparr>start_img = 2, start_idx = 1,
                start_mm = 3752999689475413 / 2251799813685248, end_img = 5,
                end_idx = 4, end_mm = 6004799503160661 / 9007199254740992,
                win_error = Fin 0, win_coverage_mm = 2, coverage_imgs = 4,
                center_idx = 3,
                center_mm = 6004799503160661 / 4503599627370496\<rparr>,
           step =
             \<lparr>step_img = 4, step_idx = 3, step_mm = None,
                step_error = Fin (2345624805922131 / 70368744177664),
                step_distance_mm = 750599937895083 / 2251799813685248,
                step_distance_imgs = 3\<rparr>\<rparr>,
          \<lparr>window =
             \<lparr>start_img = 4, start_idx = 3, start_mm = 1, end_img = 7,
                end_idx = 6, end_mm = 0, win_error = Fin 0, win_coverage_mm = 2,
                coverage_imgs = 4, center_idx = 5,
                center_mm = 6004799503160661 / 9007199254740992\<rparr>,
           step =
             \<lparr>step_img = 5, step_idx = 4, step_mm = None,
                step_error = Fin (2345624805922133 / 70368744177664),
                step_distance_mm = 750599937895083 / 2251799813685248,
                step_distance_imgs = 2\<rparr>\<rparr>]
   in get_windows_fl binary64 slicePositions (2, 1 / 2) = Inr windows \<and>
      adjacent_start_distances windows =
        [750599937895083 / 2251799813685248, 1501199875790165 / 2251799813685248] \<and>
      mean_adjacent_step windows = 1 / 2 \<and>
      map_sum id (\<lambda>stats. stats Step_size) (get_stats_fl binary64 slicePositions windows) =
        Inr (750599937895083 / 2251799813685248)"
proof -
  let ?T = "[(1, \<lparr>rel_center_mm = 2, pos_thickness_mm = 1\<rparr>),
      (2, \<lparr>rel_center_mm = 3752999689475413 / 2251799813685248, pos_thickness_mm = 1\<rparr>),
      (3, \<lparr>rel_center_mm = 6004799503160661 / 4503599627370496, pos_thickness_mm = 1\<rparr>),
      (4, \<lparr>rel_center_mm = 1, pos_thickness_mm = 1\<rparr>),
      (5, \<lparr>rel_center_mm = 6004799503160661 / 9007199254740992, pos_thickness_mm = 1\<rparr>),
      (6, \<lparr>rel_center_mm = 6004799503160661 / 18014398509481984, pos_thickness_mm = 1\<rparr>),
      (7, \<lparr>rel_center_mm = 0, pos_thickness_mm = 1\<rparr>)]"
  let ?ws = "[\<lparr>window =
             \<lparr>start_img = 1, start_idx = 0, start_mm = 2, end_img = 4,
                end_idx = 3, end_mm = 1, win_error = Fin 0, win_coverage_mm = 2,
                coverage_imgs = 4, center_idx = 2,
                center_mm = 3752999689475413 / 2251799813685248\<rparr>,
           step =
             \<lparr>step_img = 2, step_idx = 1, step_mm = None,
                step_error = Fin (2345624805922131 / 70368744177664),
                step_distance_mm = 750599937895083 / 2251799813685248,
                step_distance_imgs = 2\<rparr>\<rparr>,
          \<lparr>window =
             \<lparr>start_img = 2, start_idx = 1,
                start_mm = 3752999689475413 / 2251799813685248, end_img = 5,
                end_idx = 4, end_mm = 6004799503160661 / 9007199254740992,
                win_error = Fin 0, win_coverage_mm = 2, coverage_imgs = 4,
                center_idx = 3,
                center_mm = 6004799503160661 / 4503599627370496\<rparr>,
           step =
             \<lparr>step_img = 4, step_idx = 3, step_mm = None,
                step_error = Fin (2345624805922131 / 70368744177664),
                step_distance_mm = 750599937895083 / 2251799813685248,
                step_distance_imgs = 3\<rparr>\<rparr>,
          \<lparr>window =
             \<lparr>start_img = 4, start_idx = 3, start_mm = 1, end_img = 7,
                end_idx = 6, end_mm = 0, win_error = Fin 0, win_coverage_mm = 2,
                coverage_imgs = 4, center_idx = 5,
                center_mm = 6004799503160661 / 9007199254740992\<rparr>,
           step =
             \<lparr>step_img = 5, step_idx = 4, step_mm = None,
                step_error = Fin (2345624805922133 / 70368744177664),
                step_distance_mm = 750599937895083 / 2251799813685248,
                step_distance_imgs = 2\<rparr>\<rparr>]"
  note match = get_future_positions_def distance_mm_fl_def thickness_mm_fl_def coverage_mm_fl_def
    rel_error_fl_def reduce_min_def fl_eval
  have T: "getSlicePositions_fl binary64 7 2 1 = ?T"
    by (simp add: getSlicePositions_fl_def getSlicePositions_loop_fl.simps fl_eval)
  have span: "get_asdf_fl binary64 ?T 1 2 = Inr (4, Fin 0, 2)"
    "get_asdf_fl binary64 ?T 2 2 = Inr (5, Fin 0, 2)"
    "get_asdf_fl binary64 ?T 4 2 = Inr (7, Fin 0, 2)"
    "get_asdf_fl binary64 ?T 5 2 =
       Inr (7, Fin (4691249611844269 / 281474976710656), 3752999689475413 / 2251799813685248)"
    by (simp_all add: get_asdf_fl_def match)
  have step: "get_asdf1_fl binary64 ?T 1 (1 / 2) =
       Inr (2, Fin (2345624805922131 / 70368744177664), 750599937895083 / 2251799813685248)"
    "get_asdf1_fl binary64 ?T 2 (1 / 2) =
       Inr (4, Fin (2345624805922131 / 70368744177664), 1501199875790165 / 2251799813685248)"
    "get_asdf1_fl binary64 ?T 4 (1 / 2) =
       Inr (5, Fin (2345624805922133 / 70368744177664), 3002399751580331 / 9007199254740992)"
    by (simp_all add: get_asdf1_fl_def match)
  have run: "get_windows_fl binary64 ?T (2, 1 / 2) = Inr ?ws"
    by (simp add: get_windows_fl_def get_windows_loop_fl.simps get_windows_body_fl_def
        make_entry_def span step)
  have adj: "adjacent_start_distances ?ws =
      [750599937895083 / 2251799813685248, 1501199875790165 / 2251799813685248]"
    by simp
  have mean: "mean_adjacent_step ?ws = 1 / 2"
    by (simp add: mean_adjacent_step_def)
  have stats: "map_sum id (\<lambda>stats. stats Step_size) (get_stats_fl binary64 ?T ?ws) =
      Inr (750599937895083 / 2251799813685248)"
    by (simp add: get_stats_fl_def fl_eval)
  show ?thesis
    unfolding Let_def T using run adj mean stats by (intro conjI)
qed

text \<open>In exact arithmetic the same input gives four windows, one spacing apart.\<close>

lemma exact_run_7_2:
  "map_sum id (map (\<lambda>w. (start_img (window w), step_distance_mm (step w))))
     (get_windows (getSlicePositions 7 2 1) (2, 1 / 2)) =
   Inr [(1, 1 / 3), (2, 1 / 3), (3, 1 / 3), (4, 1 / 3)]"
  by code_simp

section \<open>The cost evaluators\<close>

text \<open>The smoothing of the specification, and the quantities \<^verbatim>\<open>objectiveFunction\<close> derives.\<close>

definition huber :: "rat \<Rightarrow> rat" where
  "huber e = (if e < 1 then (1 / 2) * e * e else e - 1 / 2)"

definition weighted_huber ::
  "(nm_key \<Rightarrow> rat) \<Rightarrow> (nm_key \<Rightarrow> rat) \<Rightarrow> (nm_key \<Rightarrow> rat) \<Rightarrow> (nm_key \<Rightarrow> rat) \<Rightarrow> rat" where
  "weighted_huber weights observed targets scale =
     (\<Sum>k \<leftarrow> keys. weights k * huber (\<bar>observed k - targets k\<bar> / scale k))"

definition nm_windowImages :: "int \<Rightarrow> rat \<Rightarrow> rat \<times> rat \<times> rat \<times> rat \<Rightarrow> int" where
  "nm_windowImages totalImages sliceInterval params =
     clampInt (max (fst params) sliceInterval / sliceInterval) 1 totalImages"

definition nm_stepImages :: "int \<Rightarrow> rat \<Rightarrow> rat \<times> rat \<times> rat \<times> rat \<Rightarrow> int" where
  "nm_stepImages totalImages sliceInterval params =
     clampInt (max (fst (snd (snd params))) sliceInterval / sliceInterval) 1
       (max 1 (nm_windowImages totalImages sliceInterval params - 1))"

definition nm_numWindows :: "int \<Rightarrow> rat \<Rightarrow> rat \<times> rat \<times> rat \<times> rat \<Rightarrow> int" where
  "nm_numWindows totalImages sliceInterval params =
     (totalImages - nm_windowImages totalImages sliceInterval params)
        div nm_stepImages totalImages sliceInterval params + 1"

definition nm_lastEnd :: "int \<Rightarrow> rat \<Rightarrow> rat \<times> rat \<times> rat \<times> rat \<Rightarrow> int" where
  "nm_lastEnd totalImages sliceInterval params =
     (nm_numWindows totalImages sliceInterval params - 1)
        * nm_stepImages totalImages sliceInterval params
     + nm_windowImages totalImages sliceInterval params - 1"

definition nm_observed :: "int \<Rightarrow> rat \<Rightarrow> rat \<times> rat \<times> rat \<times> rat \<Rightarrow> nm_key \<Rightarrow> rat" where
  "nm_observed totalImages sliceInterval params =
     (\<lambda>k. case k of
        Window_length \<Rightarrow> max (fst params) sliceInterval
      | Window_number \<Rightarrow> rat_of_int (nm_numWindows totalImages sliceInterval params)
      | Step_or_overlap \<Rightarrow> max (fst (snd (snd params))) sliceInterval
      | Percentage \<Rightarrow>
          (rat_of_int (min (nm_lastEnd totalImages sliceInterval params + 1) totalImages)
             / rat_of_int totalImages) * 100)"

definition nm_scale :: "(nm_key \<Rightarrow> rat) \<Rightarrow> rat \<Rightarrow> nm_key \<Rightarrow> rat" where
  "nm_scale targets sliceInterval k = js_or (scale_of targets sliceInterval k) 1"

lemma js_or_zero: "js_or a 0 = a"
  by (simp add: js_or_def)

lemma cost_fold:
  "foldl (\<lambda>cost k.
            let t = targets k;
                s = js_or (scale k) 1;
                e = \<bar>v k - t\<bar> / s;
                h = (if e < 1 then (1 / 2) * e * e else e - 1 / 2)
            in cost + js_or (weights k) 0 * h) 0 keys =
   weighted_huber weights v targets (\<lambda>k. js_or (scale k) 1)"
  by (simp add: keys_def weighted_huber_def huber_def Let_def js_or_zero)

lemma objectiveFunction_unfold:
  "objectiveFunction totalImages targets sliceInterval weights params =
     (if nm_numWindows totalImages sliceInterval params < 2 then 1000
      else if totalImages \<le> nm_lastEnd totalImages sliceInterval params then 1000
      else (if nm_windowImages totalImages sliceInterval params
                 \<le> nm_stepImages totalImages sliceInterval params
            then foldl (\<lambda>cost k.
                   let t = targets k;
                       s = js_or (scale_of targets sliceInterval k) 1;
                       e = \<bar>nm_observed totalImages sliceInterval params k - t\<bar> / s;
                       h = (if e < 1 then (1 / 2) * e * e else e - 1 / 2)
                   in cost + js_or (weights k) 0 * h) 0 keys + 5
            else foldl (\<lambda>cost k.
                   let t = targets k;
                       s = js_or (scale_of targets sliceInterval k) 1;
                       e = \<bar>nm_observed totalImages sliceInterval params k - t\<bar> / s;
                       h = (if e < 1 then (1 / 2) * e * e else e - 1 / 2)
                   in cost + js_or (weights k) 0 * h) 0 keys) * 100)"
proof -
  obtain p0 p1 p2 p3 where p: "params = (p0, p1, p2, p3)" by (cases params) auto
  show ?thesis
    unfolding p objectiveFunction_def nm_numWindows_def nm_lastEnd_def
      nm_stepImages_def nm_windowImages_def nm_observed_def
    by (simp only: Let_def prod.case fst_conv snd_conv)
qed

lemma objectiveFunction_closed_form:
  "objectiveFunction totalImages targets sliceInterval weights params =
     (if nm_numWindows totalImages sliceInterval params < 2
         \<or> totalImages \<le> nm_lastEnd totalImages sliceInterval params
      then 1000
      else 100 * (weighted_huber weights (nm_observed totalImages sliceInterval params) targets
                    (nm_scale targets sliceInterval)
                  + (if nm_windowImages totalImages sliceInterval params
                          \<le> nm_stepImages totalImages sliceInterval params
                     then 5 else 0)))"
proof -
  have s: "nm_scale targets sliceInterval = (\<lambda>k. js_or (scale_of targets sliceInterval k) 1)"
    by (rule ext) (simp add: nm_scale_def)
  show ?thesis
    unfolding objectiveFunction_unfold cost_fold s by simp
qed

lemma get_cost_sum_closed_form:
  assumes "\<And>k. targets k \<noteq> 0"
  shows "get_cost_sum weights (get_errors targets stats) =
     Fin (weights Total_coverage * (\<bar>stats Total_coverage - targets Total_coverage\<bar>
                                      / targets Total_coverage * 100)
        + weights Window_coverage * (\<bar>stats Window_coverage - targets Window_coverage\<bar>
                                      / targets Window_coverage * 100)
        + weights Step_size * (\<bar>stats Step_size - targets Step_size\<bar>
                                      / targets Step_size * 100))"
  using assms
  by (simp add: get_cost_sum_def get_cost_def get_errors_def get_error_def rel_error_def)

text \<open>
  Claim C4, as amended. The four-parameter objective returns the fixed value 1000 for a
  candidate with fewer than two windows or an overrunning last window; otherwise it returns
  100 times the sum of the weighted smoothed errors \<open>h(e)\<close>, \<open>e = |observed - target| / scale\<close>,
  and of the penalty 5 when the discretized step is not below the discretized window. The
  cost of the position-aware variant is the weighted sum of the raw relative errors in
  percent, \<open>|observed - target| / target * 100\<close>, without smoothing.
\<close>

theorem cost_evaluators_closed_form:
  "(sliceInterval \<noteq> 0 \<longrightarrow>
      objectiveFunction totalImages targets sliceInterval weights params =
        (if nm_numWindows totalImages sliceInterval params < 2
            \<or> totalImages \<le> nm_lastEnd totalImages sliceInterval params
         then 1000
         else 100 * (weighted_huber weights (nm_observed totalImages sliceInterval params) targets
                       (nm_scale targets sliceInterval)
                     + (if nm_windowImages totalImages sliceInterval params
                             \<le> nm_stepImages totalImages sliceInterval params
                        then 5 else 0)))) \<and>
   ((\<forall>k. targets' k \<noteq> 0) \<longrightarrow>
      get_cost_sum weights' (get_errors targets' stats) =
        Fin (weights' Total_coverage * (\<bar>stats Total_coverage - targets' Total_coverage\<bar>
                                          / targets' Total_coverage * 100)
           + weights' Window_coverage * (\<bar>stats Window_coverage - targets' Window_coverage\<bar>
                                          / targets' Window_coverage * 100)
           + weights' Step_size * (\<bar>stats Step_size - targets' Step_size\<bar>
                                          / targets' Step_size * 100)))"
proof (intro conjI impI)
  show "objectiveFunction totalImages targets sliceInterval weights params =
        (if nm_numWindows totalImages sliceInterval params < 2
            \<or> totalImages \<le> nm_lastEnd totalImages sliceInterval params
         then 1000
         else 100 * (weighted_huber weights (nm_observed totalImages sliceInterval params) targets
                       (nm_scale targets sliceInterval)
                     + (if nm_windowImages totalImages sliceInterval params
                             \<le> nm_stepImages totalImages sliceInterval params
                        then 5 else 0)))"
    by (rule objectiveFunction_closed_form)
next
  assume "\<forall>k. targets' k \<noteq> 0"
  then have "\<And>k. targets' k \<noteq> 0" by simp
  then show "get_cost_sum weights' (get_errors targets' stats) =
        Fin (weights' Total_coverage * (\<bar>stats Total_coverage - targets' Total_coverage\<bar>
                                          / targets' Total_coverage * 100)
           + weights' Window_coverage * (\<bar>stats Window_coverage - targets' Window_coverage\<bar>
                                          / targets' Window_coverage * 100)
           + weights' Step_size * (\<bar>stats Step_size - targets' Step_size\<bar>
                                          / targets' Step_size * 100))"
    by (rule get_cost_sum_closed_form)
qed

definition example_targets :: "nm_key \<Rightarrow> rat" where
  "example_targets =
     (\<lambda>k. case k of Window_length \<Rightarrow> 3 | Window_number \<Rightarrow> 4 | Step_or_overlap \<Rightarrow> 2
           | Percentage \<Rightarrow> 80)"

definition example_stats :: "criterion \<Rightarrow> rat" where
  "example_stats = (\<lambda>k. case k of Total_coverage \<Rightarrow> 30 | Window_coverage \<Rightarrow> 10 | Step_size \<Rightarrow> 10)"

lemma objectiveFunction_example:
  "objectiveFunction 10 example_targets 1 (nm_normalize (\<lambda>k. 1)) (3, 0, 2, 80) = 25 / 128"
  by code_simp

lemma weighted_huber_example:
  "weighted_huber (nm_normalize (\<lambda>k. 1)) (nm_observed 10 1 (3, 0, 2, 80)) example_targets
     (nm_scale example_targets 1) = 1 / 512"
  by code_simp

lemma get_cost_sum_example:
  "get_cost_sum (normalize_weights (\<lambda>k. 1)) (get_errors (\<lambda>k. 10) example_stats)
     = Fin (200 / 3)"
  by code_simp

theorem cost_not_weighted_huber_counterexample:
  "objectiveFunction 10 example_targets 1 (nm_normalize (\<lambda>k. 1)) (3, 0, 2, 80) = 25 / 128 \<and>
   weighted_huber (nm_normalize (\<lambda>k. 1)) (nm_observed 10 1 (3, 0, 2, 80)) example_targets
     (nm_scale example_targets 1) = 1 / 512 \<and>
   get_cost_sum (normalize_weights (\<lambda>k. 1)) (get_errors (\<lambda>k. 10) example_stats)
     = Fin (200 / 3) \<and>
   (1 / 3) * huber (\<bar>30 - 10\<bar> / 10) + (1 / 3) * huber (\<bar>10 - 10\<bar> / 10)
     + (1 / 3) * huber (\<bar>10 - 10\<bar> / 10) = 1 / 2"
  by (simp add: objectiveFunction_example weighted_huber_example get_cost_sum_example huber_def)

theorem cost_evaluators_closed_form_witness:
  "(1::rat) \<noteq> 0 \<and>
   objectiveFunction 10 example_targets 1 (nm_normalize (\<lambda>k. 1)) (3, 0, 2, 80) =
     100 * weighted_huber (nm_normalize (\<lambda>k. 1)) (nm_observed 10 1 (3, 0, 2, 80)) example_targets
             (nm_scale example_targets 1) \<and>
   (\<forall>k. (\<lambda>k::criterion. 10::rat) k \<noteq> 0) \<and>
   get_cost_sum (normalize_weights (\<lambda>k. 1)) (get_errors (\<lambda>k. 10) example_stats)
     = Fin (200 / 3)"
proof -
  note t = cost_evaluators_closed_form[where sliceInterval = 1 and totalImages = 10
      and targets = example_targets and weights = "nm_normalize (\<lambda>k. 1)"
      and params = "(3, 0, 2, 80)" and targets' = "\<lambda>k. 10" and stats = example_stats
      and weights' = "normalize_weights (\<lambda>k. 1)"]
  have n: "\<not> (nm_numWindows 10 1 (3, 0, 2, 80) < 2 \<or> 10 \<le> nm_lastEnd 10 1 (3, 0, 2, 80))"
    by code_simp
  have p: "\<not> nm_windowImages 10 1 (3, 0, 2, 80) \<le> nm_stepImages 10 1 (3, 0, 2, 80)"
    by code_simp
  have "objectiveFunction 10 example_targets 1 (nm_normalize (\<lambda>k. 1)) (3, 0, 2, 80) =
     100 * weighted_huber (nm_normalize (\<lambda>k. 1)) (nm_observed 10 1 (3, 0, 2, 80)) example_targets
             (nm_scale example_targets 1)"
    using t n p by simp
  then show ?thesis by (simp add: get_cost_sum_example)
qed

section \<open>Weight normalization\<close>

lemma three_shares:
  fixes a b c :: rat
  assumes "a + b + c \<noteq> 0"
  shows "a / (a + b + c) + b / (a + b + c) + c / (a + b + c) = 1"
proof -
  have "a / (a + b + c) + b / (a + b + c) + c / (a + b + c) = (a + b + c) / (a + b + c)"
    by (simp only: add_divide_distrib)
  then show ?thesis using assms by simp
qed

lemma four_shares:
  fixes a b c d :: rat
  assumes "a + b + c + d \<noteq> 0"
  shows "a / (a + b + c + d) + b / (a + b + c + d) + c / (a + b + c + d)
         + d / (a + b + c + d) = 1"
proof -
  have "a / (a + b + c + d) + b / (a + b + c + d) + c / (a + b + c + d) + d / (a + b + c + d)
        = (a + b + c + d) / (a + b + c + d)"
    by (simp only: add_divide_distrib)
  then show ?thesis using assms by simp
qed

lemma normalize_weights_sum:
  "normalize_weights raw Window_coverage + normalize_weights raw Step_size
     + normalize_weights raw Total_coverage = 1"
proof (cases "raw Window_coverage + raw Step_size + raw Total_coverage = 0")
  case True
  then show ?thesis by (simp add: normalize_weights_def Let_def)
next
  case False
  then show ?thesis using three_shares[OF False]
    by (simp add: normalize_weights_def Let_def)
qed

lemma nm_normalize_sum:
  "(\<Sum>k \<leftarrow> keys. nm_normalize weights k) = 1"
proof (cases "weights Window_length + weights Window_number + weights Step_or_overlap
    + weights Percentage = 0")
  case True
  then show ?thesis by (simp add: nm_normalize_def Let_def keys_def js_or_zero)
next
  case False
  then show ?thesis using four_shares[OF False]
    by (simp add: nm_normalize_def Let_def keys_def js_or_zero)
qed

text \<open>
  Claim C5. In both variants the normalized weights sum to 1, for every supplied weight set
  (in particular for non-negative weights), and when every supplied weight is zero each
  criterion receives the uniform share: a third with three criteria, a quarter with four.
\<close>

theorem weights_normalized:
  "(\<Sum>k \<leftarrow> [Window_coverage, Step_size, Total_coverage]. normalize_weights raw_weights k) = 1 \<and>
   ((\<forall>k. raw_weights k = 0) \<longrightarrow> (\<forall>k. normalize_weights raw_weights k = 1 / 3)) \<and>
   (\<Sum>k \<leftarrow> keys. nm_normalize weights k) = 1 \<and>
   ((\<forall>k. weights k = 0) \<longrightarrow> (\<forall>k. nm_normalize weights k = 1 / 4))"
proof -
  have "(\<Sum>k \<leftarrow> [Window_coverage, Step_size, Total_coverage]. normalize_weights raw_weights k) = 1"
    using normalize_weights_sum[of raw_weights] by simp
  moreover have "\<forall>k. normalize_weights raw_weights k = 1 / 3" if "\<forall>k. raw_weights k = 0"
    using that by (simp add: normalize_weights_def Let_def)
  moreover have "\<forall>k. nm_normalize weights k = 1 / 4" if "\<forall>k. weights k = 0"
    using that by (simp add: nm_normalize_def Let_def keys_def js_or_zero)
  ultimately show ?thesis using nm_normalize_sum by blast
qed

theorem weights_normalized_witness:
  "(\<forall>k. (\<lambda>k::criterion. 0::rat) k = 0) \<and> normalize_weights (\<lambda>k. 0) Step_size = 1 / 3 \<and>
   (\<forall>k. (\<lambda>k::nm_key. 0::rat) k = 0) \<and> nm_normalize (\<lambda>k. 0) Percentage = 1 / 4"
  using weights_normalized[of "\<lambda>k. 0" "\<lambda>k. 0"] by simp

end
